theory Spec2Isabelle
  imports Main
begin

section \<open>ThumbnailCache: data model\<close>

text \<open>
  The cache of decoded thumbnails (class \<open>ThumbnailCache\<close>) runs on the single thread of
  the JavaScript event loop. Its synchronous methods are functions on the record of the
  object's fields. Asynchronous code is cut where it suspends: the statements of \<open>load\<close>
  after \<open>await createImageBitmap(file)\<close>; the \<open>then\<close>/\<open>catch\<close> callbacks that settle the
  promise of a request, with the \<open>finally\<close> block of the \<open>get\<close> that awaits it; and the
  \<open>finally\<close> callback of \<open>processQueue\<close>. Each piece is one event of a step function. For
  one load the three pieces run in this order, as the microtask queue runs them; calls of
  public methods and the events of other loads may come between them in any way, so every
  schedule of the event loop is a sequence of events of the model.

  Numbers are JavaScript numbers holding integers below \<open>2^53\<close>, where they are exact:
  counters are \<open>int\<close>, pixel dimensions and byte sizes are \<open>nat\<close>.
\<close>

type_synonym key = string

text \<open>A \<open>File\<close> is opaque to the cache: it is only handed to the decoder.\<close>

type_synonym File = nat

text \<open>
  Interface \<open>CacheEntry\<close>. The \<open>bitmap\<close> is the handle of the \<open>ImageBitmap\<close> object; the
  decode of request number \<open>p\<close> produces the handle \<open>p\<close>, so distinct decodes produce distinct
  objects. The field \<open>size\<close> is named \<open>sizeB\<close> here.
\<close>

record CacheEntry =
  bitmap :: nat
  width :: nat
  height :: nat
  sizeB :: nat

text \<open>
  Interface \<open>QueuedLoad\<close>. The two continuations \<open>resolve\<close> and \<open>reject\<close> belong to one
  promise (\<open>loadPromise\<close> of \<open>get\<close>); the field \<open>promise\<close> is the index of that promise
  in the table of promises.
\<close>

record QueuedLoad =
  volumeUuid :: key
  "file" :: File
  promise :: nat

datatype promise_state = Pending | Fulfilled CacheEntry | Rejected

text \<open>
  A call of \<open>load\<close> issued by \<open>processQueue\<close> and not yet finished: \<open>Decoding\<close> while
  \<open>createImageBitmap\<close> runs, \<open>Settled r\<close> once \<open>load\<close> has returned (\<open>Some entry\<close>) or
  thrown (\<open>None\<close>), \<open>Delivered\<close> once the request's promise has been settled and the
  \<open>finally\<close> callback of \<open>processQueue\<close> is still to run.
\<close>

datatype phase = Decoding | Settled "CacheEntry option" | Delivered

record Load =
  item :: QueuedLoad
  phase :: phase

text \<open>
  The fields of the class, followed by what the runtime holds for it: the promises created
  by \<open>get\<close>, the calls of \<open>load\<close> in progress, and the bitmaps on which \<open>close\<close> was called.
\<close>

record ThumbnailCache =
  cache :: "(key \<times> CacheEntry) list"
  pending :: "(key \<times> nat) list"
  totalBytes :: int
  maxBytes :: int
  queue :: "QueuedLoad list"
  activeLoads :: int
  maxConcurrent :: int
  promises :: "promise_state list"
  loads :: "Load list"
  closed :: "nat list"

definition init :: ThumbnailCache where
  "init = \<lparr> cache = [], pending = [], totalBytes = 0, maxBytes = 50 * 1024 * 1024,
            queue = [], activeLoads = 0, maxConcurrent = 6,
            promises = [], loads = [], closed = [] \<rparr>"

subsection \<open>The JavaScript \<open>Map\<close>\<close>

text \<open>
  A \<open>Map\<close> iterates in insertion order: it is a list of pairs, oldest first. \<open>set\<close> on a
  key that is present replaces the value where it stands; on a new key it appends.
\<close>

definition map_get :: "('k \<times> 'v) list \<Rightarrow> 'k \<Rightarrow> 'v option" where
  "map_get m k = map_of m k"

definition map_has :: "('k \<times> 'v) list \<Rightarrow> 'k \<Rightarrow> bool" where
  "map_has m k = (k \<in> set (map fst m))"

definition map_delete :: "('k \<times> 'v) list \<Rightarrow> 'k \<Rightarrow> ('k \<times> 'v) list" where
  "map_delete m k = filter (\<lambda>kv. fst kv \<noteq> k) m"

fun map_set :: "('k \<times> 'v) list \<Rightarrow> 'k \<Rightarrow> 'v \<Rightarrow> ('k \<times> 'v) list" where
  "map_set [] k v = [(k, v)]"
| "map_set (kv # m) k v = (if fst kv = k then (k, v) # m else kv # map_set m k v)"

section \<open>Operations\<close>

text \<open>\<open>touch\<close>: move the entry to the end of the \<open>Map\<close>.\<close>

definition touch :: "ThumbnailCache \<Rightarrow> key \<Rightarrow> ThumbnailCache" where
  "touch s k =
     (case map_get (cache s) k of
        None \<Rightarrow> s
      | Some entry \<Rightarrow> s\<lparr>cache := map_set (map_delete (cache s) k) k entry\<rparr>)"

text \<open>
  \<open>evictLRU\<close>: the first key of the \<open>Map\<close> is tested for truthiness, so nothing is evicted
  when the \<open>Map\<close> is empty and nothing is evicted when the first key is the empty string.
\<close>

definition evictLRU :: "ThumbnailCache \<Rightarrow> ThumbnailCache" where
  "evictLRU s =
     (case cache s of
        [] \<Rightarrow> s
      | kv # _ \<Rightarrow>
          (let firstKey = fst kv in
           if firstKey = [] then s
           else (case map_get (cache s) firstKey of
                   None \<Rightarrow> s
                 | Some entry \<Rightarrow>
                     s\<lparr>closed := closed s @ [bitmap entry],
                       totalBytes := totalBytes s - int (sizeB entry),
                       cache := map_delete (cache s) firstKey\<rparr>)))"

text \<open>
  The loop of \<open>load\<close>: \<open>while (totalBytes + size > maxBytes && cache.size > 0) evictLRU()\<close>.
  It has no bound of its own; a run that never leaves the loop is the value \<open>None\<close>.
\<close>

partial_function (option) evict_loop :: "ThumbnailCache \<Rightarrow> nat \<Rightarrow> ThumbnailCache option" where
  "evict_loop s sz =
     (if totalBytes s + int sz > maxBytes s \<and> length (cache s) > 0
      then evict_loop (evictLRU s) sz
      else Some s)"

declare evict_loop.simps [code]

text \<open>
  \<open>load\<close> from the point where \<open>createImageBitmap\<close> has produced the bitmap \<open>b\<close> of
  \<open>w\<close> by \<open>h\<close> pixels: evict, build the entry, store it, add its size, return it.
\<close>

definition load :: "ThumbnailCache \<Rightarrow> key \<Rightarrow> nat \<Rightarrow> nat \<Rightarrow> nat \<Rightarrow> (ThumbnailCache \<times> CacheEntry) option" where
  "load s k b w h =
     (let sz = w * h * 4 in
      case evict_loop s sz of
        None \<Rightarrow> None
      | Some s1 \<Rightarrow>
          (let entry = \<lparr> bitmap = b, width = w, height = h, sizeB = sz \<rparr> in
           Some (s1\<lparr>cache := map_set (cache s1) k entry,
                    totalBytes := totalBytes s1 + int sz\<rparr>, entry)))"

text \<open>
  \<open>processQueue\<close>: while the queue is non-empty and a slot is free, pop the last item,
  count it and call \<open>load\<close>, which runs up to its \<open>await\<close>: the decode is now in progress.
\<close>

function processQueue :: "ThumbnailCache \<Rightarrow> ThumbnailCache" where
  "processQueue s =
     (if length (queue s) > 0 \<and> activeLoads s < maxConcurrent s
      then processQueue
             (s\<lparr>queue := butlast (queue s),
                activeLoads := activeLoads s + 1,
                loads := loads s @ [\<lparr> item = last (queue s), phase = Decoding \<rparr>]\<rparr>)
      else s)"
  by pat_completeness auto
termination
  by (relation "measure (\<lambda>s. length (queue s))") auto

declare processQueue.simps [simp del]

text \<open>
  What a call of \<open>get\<close> hands back. An \<open>async\<close> function returns a promise of its own:
  \<open>Resolved entry\<close> is one that is fulfilled with the entry found in the store,
  \<open>Follows p\<close> one that settles as the promise \<open>p\<close> does (\<open>return pendingLoad\<close> and
  \<open>return await loadPromise\<close>).
\<close>

datatype future = Resolved CacheEntry | Follows nat

text \<open>
  \<open>get\<close>, up to its \<open>await\<close>. The executor of \<open>new Promise\<close> runs at once and pushes the
  request. The \<open>finally\<close> block runs when the promise settles: it is part of \<open>deliver\<close>.
\<close>

definition get :: "ThumbnailCache \<Rightarrow> key \<Rightarrow> File \<Rightarrow> future \<times> ThumbnailCache" where
  "get s k f =
     (case map_get (cache s) k of
        Some existing \<Rightarrow> (Resolved existing, touch s k)
      | None \<Rightarrow>
          (case map_get (pending s) k of
             Some pendingLoad \<Rightarrow> (Follows pendingLoad, s)
           | None \<Rightarrow>
               (let loadPromise = length (promises s);
                    s1 = s\<lparr>promises := promises s @ [Pending],
                           queue := queue s @ [\<lparr> volumeUuid = k, file = f, promise = loadPromise \<rparr>]\<rparr>;
                    s2 = s1\<lparr>pending := map_set (pending s1) k loadPromise\<rparr>
                in (Follows loadPromise, processQueue s2))))"

definition has :: "ThumbnailCache \<Rightarrow> key \<Rightarrow> bool" where
  "has s k = map_has (cache s) k"

definition getSync :: "ThumbnailCache \<Rightarrow> key \<Rightarrow> CacheEntry option \<times> ThumbnailCache" where
  "getSync s k =
     (case map_get (cache s) k of
        None \<Rightarrow> (None, s)
      | Some entry \<Rightarrow> (Some entry, touch s k))"

definition invalidate :: "ThumbnailCache \<Rightarrow> key \<Rightarrow> ThumbnailCache" where
  "invalidate s k =
     (let s1 = (case map_get (cache s) k of
                  None \<Rightarrow> s
                | Some entry \<Rightarrow>
                    s\<lparr>closed := closed s @ [bitmap entry],
                      totalBytes := totalBytes s - int (sizeB entry),
                      cache := map_delete (cache s) k\<rparr>);
          s2 = s1\<lparr>pending := map_delete (pending s1) k\<rparr>
      in s2\<lparr>queue := filter (\<lambda>it. volumeUuid it \<noteq> k) (queue s2)\<rparr>)"

definition clear :: "ThumbnailCache \<Rightarrow> ThumbnailCache" where
  "clear s = s\<lparr>closed := closed s @ map (\<lambda>kv. bitmap (snd kv)) (cache s),
               cache := [],
               totalBytes := 0\<rparr>"

text \<open>\<open>getStats\<close> without the formatted \<open>utilization\<close> string: count, total, budget.\<close>

definition getStats :: "ThumbnailCache \<Rightarrow> nat \<times> int \<times> int" where
  "getStats s = (length (cache s), totalBytes s, maxBytes s)"

subsection \<open>Resumptions\<close>

datatype decode_result = Bitmap nat nat | DecodeError

definition set_phase :: "ThumbnailCache \<Rightarrow> nat \<Rightarrow> phase \<Rightarrow> ThumbnailCache" where
  "set_phase s p ph =
     s\<lparr>loads := map (\<lambda>l. if promise (item l) = p then l\<lparr>phase := ph\<rparr> else l) (loads s)\<rparr>"

text \<open>
  \<open>createImageBitmap\<close> of the load of request \<open>p\<close> settles and \<open>load\<close> resumes: with a
  bitmap it runs to its \<open>return\<close>, with an error it throws at once.
\<close>

definition decode_done :: "ThumbnailCache \<Rightarrow> nat \<Rightarrow> decode_result \<Rightarrow> ThumbnailCache option" where
  "decode_done s p r =
     (case find (\<lambda>l. promise (item l) = p \<and> phase l = Decoding) (loads s) of
        None \<Rightarrow> Some s
      | Some l \<Rightarrow>
          (case r of
             DecodeError \<Rightarrow> Some (set_phase s p (Settled None))
           | Bitmap w h \<Rightarrow>
               (case load s (volumeUuid (item l)) p w h of
                  None \<Rightarrow> None
                | Some (s1, entry) \<Rightarrow> Some (set_phase s1 p (Settled (Some entry))))))"

text \<open>A promise is settled once: \<open>resolve\<close> and \<open>reject\<close> do nothing on a settled promise.\<close>

definition settle :: "promise_state list \<Rightarrow> nat \<Rightarrow> promise_state \<Rightarrow> promise_state list" where
  "settle ps p v = (if p < length ps \<and> ps ! p = Pending then ps[p := v] else ps)"

text \<open>
  \<open>.then(item.resolve).catch(item.reject)\<close> settles the promise of the request, and the
  \<open>get\<close> that awaits it resumes into its \<open>finally\<close> block: \<open>pending.delete(volumeUuid)\<close>.
\<close>

definition deliver :: "ThumbnailCache \<Rightarrow> nat \<Rightarrow> ThumbnailCache" where
  "deliver s p =
     (case find (\<lambda>l. promise (item l) = p \<and> phase l \<noteq> Decoding \<and> phase l \<noteq> Delivered) (loads s) of
        None \<Rightarrow> s
      | Some l \<Rightarrow>
          (let v = (case phase l of Settled (Some entry) \<Rightarrow> Fulfilled entry | _ \<Rightarrow> Rejected);
               s1 = s\<lparr>promises := settle (promises s) p v\<rparr>;
               s2 = s1\<lparr>pending := map_delete (pending s1) (volumeUuid (item l))\<rparr>
           in set_phase s2 p Delivered))"

text \<open>The \<open>finally\<close> callback of \<open>processQueue\<close>: \<open>activeLoads--\<close>, then \<open>processQueue()\<close>.\<close>

definition load_finally :: "ThumbnailCache \<Rightarrow> nat \<Rightarrow> ThumbnailCache" where
  "load_finally s p =
     (case find (\<lambda>l. promise (item l) = p \<and> phase l = Delivered) (loads s) of
        None \<Rightarrow> s
      | Some l \<Rightarrow>
          processQueue
            (s\<lparr>loads := filter (\<lambda>l. promise (item l) \<noteq> p) (loads s),
               activeLoads := activeLoads s - 1\<rparr>))"

subsection \<open>The event loop\<close>

text \<open>
  One event is one call of a public method or one resumption. A resumption named for a
  request that is not in the phase it needs does nothing. \<open>None\<close> is an event that never
  returns.
\<close>

datatype event =
    Get key File
  | GetSync key
  | Has key
  | Invalidate key
  | Clear
  | DecodeDone nat decode_result
  | Deliver nat
  | Finally nat

fun step :: "ThumbnailCache \<Rightarrow> event \<Rightarrow> ThumbnailCache option" where
  "step s (Get k f) = Some (snd (get s k f))"
| "step s (GetSync k) = Some (snd (getSync s k))"
| "step s (Has k) = Some s"
| "step s (Invalidate k) = Some (invalidate s k)"
| "step s Clear = Some (clear s)"
| "step s (DecodeDone p r) = decode_done s p r"
| "step s (Deliver p) = Some (deliver s p)"
| "step s (Finally p) = Some (load_finally s p)"

fun run :: "ThumbnailCache \<Rightarrow> event list \<Rightarrow> ThumbnailCache option" where
  "run s [] = Some s"
| "run s (e # es) = (case step s e of None \<Rightarrow> None | Some s1 \<Rightarrow> run s1 es)"

text \<open>The state of what a caller of \<open>get\<close> holds.\<close>

fun future_state :: "ThumbnailCache \<Rightarrow> future \<Rightarrow> promise_state" where
  "future_state s (Resolved entry) = Fulfilled entry"
| "future_state s (Follows p) = (if p < length (promises s) then promises s ! p else Pending)"

subsection \<open>Requests in the scheduler\<close>

text \<open>The record of a call of \<open>load\<close> that \<open>processQueue\<close> has just issued.\<close>

definition start_load :: "QueuedLoad \<Rightarrow> Load" where
  "start_load it = \<lparr> item = it, phase = Decoding \<rparr>"

text \<open>How many requests one call of \<open>processQueue\<close> starts.\<close>

definition free_slots :: "ThumbnailCache \<Rightarrow> nat" where
  "free_slots s = min (length (queue s)) (nat (maxConcurrent s - activeLoads s))"

text \<open>The promises of the requests that are queued or being loaded.\<close>

definition req_ids :: "ThumbnailCache \<Rightarrow> nat list" where
  "req_ids s = map promise (queue s) @ map (\<lambda>l. promise (item l)) (loads s)"

text \<open>The requests that are queued or whose load is in progress.\<close>

definition requests :: "ThumbnailCache \<Rightarrow> QueuedLoad set" where
  "requests s = set (queue s) \<union> item ` set (loads s)"

text \<open>A miss of \<open>get\<close>: the request is queued under a new promise, then the queue is drained.\<close>

definition enqueue :: "ThumbnailCache \<Rightarrow> key \<Rightarrow> File \<Rightarrow> ThumbnailCache" where
  "enqueue s k f =
     s\<lparr>promises := promises s @ [Pending],
       queue := queue s @ [\<lparr> volumeUuid = k, file = f, promise = length (promises s) \<rparr>],
       pending := map_set (pending s) k (length (promises s))\<rparr>"

text \<open>The outcome that \<open>deliver\<close> hands to the promise of a load.\<close>

definition outcome :: "Load \<Rightarrow> promise_state" where
  "outcome l = (case phase l of Settled (Some entry) \<Rightarrow> Fulfilled entry | _ \<Rightarrow> Rejected)"

text \<open>The keys being loaded, in the order their loads started, and the keys waiting, oldest first.\<close>

definition active_keys :: "ThumbnailCache \<Rightarrow> key list" where
  "active_keys s = map (\<lambda>l. volumeUuid (item l)) (loads s)"

definition queued_keys :: "ThumbnailCache \<Rightarrow> key list" where
  "queued_keys s = map volumeUuid (queue s)"


text \<open>No load for the key is in progress: none that has started and is not yet delivered.\<close>

definition idle :: "ThumbnailCache \<Rightarrow> key \<Rightarrow> bool" where
  "idle s k = list_all (\<lambda>l. volumeUuid (item l) = k \<longrightarrow> phase l = Delivered) (loads s)"

subsection \<open>Eviction in closed form\<close>

text \<open>The sum of \<open>size\<close> over the entries of a store.\<close>

definition sum_sizes :: "(key \<times> CacheEntry) list \<Rightarrow> int" where
  "sum_sizes m = sum_list (map (\<lambda>kv. int (sizeB (snd kv))) m)"

text \<open>
  How many entries, counted from the least recently used one, leave a store \<open>m\<close> whose
  byte total is \<open>tot\<close> before an entry of \<open>sz\<close> bytes fits the budget \<open>mx\<close> or the store is
  empty.
\<close>

fun evict_count :: "(key \<times> CacheEntry) list \<Rightarrow> int \<Rightarrow> int \<Rightarrow> nat \<Rightarrow> nat" where
  "evict_count [] tot mx sz = 0"
| "evict_count (kv # m) tot mx sz =
     (if mx < tot + int sz then Suc (evict_count m (tot - int (sizeB (snd kv))) mx sz) else 0)"

text \<open>The state after the \<open>n\<close> least recently used entries have been evicted.\<close>

definition evicted :: "ThumbnailCache \<Rightarrow> nat \<Rightarrow> ThumbnailCache" where
  "evicted s n =
     s\<lparr>closed := closed s @ map (\<lambda>kv. bitmap (snd kv)) (take n (cache s)),
       totalBytes := totalBytes s - sum_sizes (take n (cache s)),
       cache := drop n (cache s)\<rparr>"

subsection \<open>Invariants\<close>

text \<open>
  What holds of the scheduler between any two events: every request has a promise of its
  own, which exists and is pending until it is delivered; \<open>activeLoads\<close> counts the calls of
  \<open>load\<close> in progress and is at most the ceiling. \<open>wf\<close> adds what every call of
  \<open>processQueue\<close> establishes: requests wait only while every slot is taken.
\<close>

definition wf0 :: "ThumbnailCache \<Rightarrow> bool" where
  "wf0 s \<longleftrightarrow>
     distinct (req_ids s)
   \<and> (\<forall>p \<in> set (req_ids s). p < length (promises s))
   \<and> (\<forall>q \<in> set (queue s). promises s ! promise q = Pending)
   \<and> (\<forall>l \<in> set (loads s). phase l \<noteq> Delivered \<longrightarrow> promises s ! promise (item l) = Pending)
   \<and> activeLoads s = int (length (loads s))
   \<and> activeLoads s \<le> maxConcurrent s"

definition wf :: "ThumbnailCache \<Rightarrow> bool" where
  "wf s \<longleftrightarrow> wf0 s \<and> (queue s \<noteq> [] \<longrightarrow> activeLoads s = maxConcurrent s)"

text \<open>A promise that exists, is pending, and that no queued or loading request can settle.\<close>

definition orphan :: "ThumbnailCache \<Rightarrow> nat \<Rightarrow> bool" where
  "orphan s p \<longleftrightarrow> p < length (promises s) \<and> promises s ! p = Pending \<and> p \<notin> set (req_ids s)"

text \<open>
  Every request for the key that is queued, decoding or settled but not yet delivered is
  the one the pending map holds for the key.
\<close>

definition coalesced :: "ThumbnailCache \<Rightarrow> key \<Rightarrow> bool" where
  "coalesced s k \<longleftrightarrow>
     (\<forall>q \<in> set (queue s). volumeUuid q = k \<longrightarrow> map_get (pending s) k = Some (promise q))
   \<and> (\<forall>l \<in> set (loads s). volumeUuid (item l) = k \<and> phase l \<noteq> Delivered \<longrightarrow>
          map_get (pending s) k = Some (promise (item l)))"



text \<open>No request that is queued or decoding is for a key of the store.\<close>

definition fresh_keys :: "ThumbnailCache \<Rightarrow> bool" where
  "fresh_keys s \<longleftrightarrow>
     (\<forall>q \<in> set (queue s). map_get (cache s) (volumeUuid q) = None)
   \<and> (\<forall>l \<in> set (loads s). phase l = Decoding \<longrightarrow> map_get (cache s) (volumeUuid (item l)) = None)"

text \<open>The store has one entry per key, and the byte total is the sum of their sizes.\<close>

definition store_ok :: "ThumbnailCache \<Rightarrow> bool" where
  "store_ok s \<longleftrightarrow> distinct (map fst (cache s)) \<and> totalBytes s = sum_sizes (cache s)"

text \<open>What holds between any two events of a calm sequence whose bitmaps fit the budget.\<close>

definition budget_inv :: "ThumbnailCache \<Rightarrow> bool" where
  "budget_inv s \<longleftrightarrow>
     wf s \<and> (\<forall>k. coalesced s k) \<and> fresh_keys s \<and> store_ok s \<and> totalBytes s \<le> maxBytes s"

subsection \<open>Sequences of calls and events\<close>



text \<open>
  A sequence of events, run from a state, in which \<open>invalidate\<close> is called for a key only
  while no load for that key is in progress.
\<close>

fun calm :: "ThumbnailCache \<Rightarrow> event list \<Rightarrow> bool" where
  "calm s [] = True"
| "calm s (e # es) =
     ((case e of Invalidate k \<Rightarrow> idle s k | _ \<Rightarrow> True)
      \<and> (case step s e of None \<Rightarrow> True | Some s1 \<Rightarrow> calm s1 es))"

text \<open>Every bitmap that a decode of the sequence produces has at most \<open>mx\<close> bytes.\<close>

definition sizes_fit :: "int \<Rightarrow> event list \<Rightarrow> bool" where
  "sizes_fit mx es =
     list_all (\<lambda>e. case e of DecodeDone p (Bitmap w h) \<Rightarrow> int (w * h * 4) \<le> mx | _ \<Rightarrow> True) es"

subsection \<open>Concrete inputs\<close>

definition entry_a :: CacheEntry where
  "entry_a = \<lparr> bitmap = 0, width = 10, height = 10, sizeB = 400 \<rparr>"

definition entry_b :: CacheEntry where
  "entry_b = \<lparr> bitmap = 1, width = 20, height = 10, sizeB = 800 \<rparr>"

text \<open>Two entries in the store, \<open>a\<close> older than \<open>b\<close>; a request for \<open>c\<close> waits in the queue.\<close>

definition two_cached :: ThumbnailCache where
  "two_cached =
     init\<lparr>cache := [(''a'', entry_a), (''b'', entry_b)],
          totalBytes := 1200,
          pending := [(''c'', 2)],
          queue := [\<lparr> volumeUuid = ''c'', file = 7, promise = 2 \<rparr>],
          promises := [Fulfilled entry_a, Fulfilled entry_b, Pending]\<rparr>"

text \<open>Ten requests for ten different keys, issued one after the other with no event between.\<close>

definition ten_requests :: "event list" where
  "ten_requests =
     [Get ''k0'' 0, Get ''k1'' 1, Get ''k2'' 2, Get ''k3'' 3, Get ''k4'' 4,
      Get ''k5'' 5, Get ''k6'' 6, Get ''k7'' 7, Get ''k8'' 8, Get ''k9'' 9]"

text \<open>The tenth of the ten requests, which is the last one queued.\<close>

definition request_k9 :: QueuedLoad where
  "request_k9 = \<lparr> volumeUuid = ''k9'', file = 9, promise = 9 \<rparr>"

text \<open>
  Requests for \<open>A\<close>, \<open>B\<close>, \<open>C\<close> in this order; the three events that settle the load of
  request \<open>p\<close> with a bitmap; an instance whose ceiling is 1.
\<close>

definition abc_requests :: "event list" where
  "abc_requests = [Get ''A'' 0, Get ''B'' 1, Get ''C'' 2]"

definition settle_ok :: "nat \<Rightarrow> event list" where
  "settle_ok p = [DecodeDone p (Bitmap 10 10), Deliver p, Finally p]"

definition ceiling_one :: ThumbnailCache where
  "ceiling_one = init\<lparr>maxConcurrent := 1\<rparr>"


text \<open>
  The key \<open>a\<close> is requested, invalidated while its load is decoding, and requested again;
  \<open>j\<close> is requested; the first load of \<open>a\<close>, the load of \<open>j\<close> and the second load of \<open>a\<close>
  finish in this order.
\<close>

definition stale_a :: "event list" where
  "stale_a =
     [Get ''a'' 0, Invalidate ''a'', Get ''a'' 1, Get ''j'' 2,
      DecodeDone 0 (Bitmap 10 10), DecodeDone 2 (Bitmap 20 10), DecodeDone 1 (Bitmap 30 10)]"

text \<open>
  Four bitmaps of 16 MiB each are requested and decoded, which evicts the first; the key
  \<open>a\<close> is invalidated after its load has finished; \<open>getSync\<close> hits \<open>b\<close> and misses \<open>zz\<close>.
\<close>

definition four_big :: "event list" where
  "four_big =
     [Get ''a'' 0, Get ''b'' 1, Get ''c'' 2, Get ''d'' 3,
      DecodeDone 0 (Bitmap 2048 2048), DecodeDone 1 (Bitmap 2048 2048),
      DecodeDone 2 (Bitmap 2048 2048), DecodeDone 3 (Bitmap 2048 2048),
      Deliver 0, Finally 0, Invalidate ''a'', GetSync ''b'', GetSync ''zz'']"

section \<open>Facts about the \<open>Map\<close> operations\<close>

lemma map_set_fresh: "k \<notin> fst ` set m \<Longrightarrow> map_set m k v = m @ [(k, v)]"
  by (induction m) auto

lemma map_set_delete: "map_set (map_delete m k) k v = map_delete m k @ [(k, v)]"
  by (rule map_set_fresh) (auto simp: map_delete_def)

lemma map_get_delete_same: "map_get (map_delete m k) k = None"
  by (induction m) (auto simp: map_get_def map_delete_def)

lemma map_get_delete_other: "k' \<noteq> k \<Longrightarrow> map_get (map_delete m k) k' = map_get m k'"
  by (induction m) (auto simp: map_get_def map_delete_def)

lemma map_get_append:
  "map_get (m @ [(k, v)]) k' =
     (case map_get m k' of Some x \<Rightarrow> Some x | None \<Rightarrow> if k' = k then Some v else None)"
  by (induction m) (auto simp: map_get_def)

lemma map_has_get: "map_has m k = (map_get m k \<noteq> None)"
  by (induction m) (auto simp: map_has_def map_get_def)

lemma map_get_None_iff: "map_get m k = None \<longleftrightarrow> k \<notin> fst ` set m"
  by (simp add: map_get_def map_of_eq_None_iff)

lemma map_delete_absent: "map_get m k = None \<Longrightarrow> map_delete m k = m"
  by (induction m) (auto simp: map_get_def map_delete_def split: if_splits)

section \<open>The eviction loop\<close>

lemma evict_loop_cases:
  assumes "evict_loop s sz = Some s'"
  shows "(\<forall>P. P s \<longrightarrow> (\<forall>t. P t \<longrightarrow> P (evictLRU t)) \<longrightarrow> P s')
          \<and> \<not> (maxBytes s' < totalBytes s' + int sz \<and> cache s' \<noteq> [])"
  using assms
proof (rule evict_loop.raw_induct [rotated])
  fix f t n t'
  assume IH: "\<And>a b y. f a b = Some y \<Longrightarrow>
            (\<forall>P. P a \<longrightarrow> (\<forall>t. P t \<longrightarrow> P (evictLRU t)) \<longrightarrow> P y)
            \<and> \<not> (maxBytes y < totalBytes y + int b \<and> cache y \<noteq> [])"
    and eq: "(if maxBytes t < totalBytes t + int n \<and> 0 < length (cache t)
              then f (evictLRU t) n else Some t) = Some t'"
  show "(\<forall>P. P t \<longrightarrow> (\<forall>u. P u \<longrightarrow> P (evictLRU u)) \<longrightarrow> P t')
          \<and> \<not> (maxBytes t' < totalBytes t' + int n \<and> cache t' \<noteq> [])"
  proof (cases "maxBytes t < totalBytes t + int n \<and> 0 < length (cache t)")
    case True
    with eq have "f (evictLRU t) n = Some t'" by simp
    from IH [OF this] show ?thesis by blast
  next
    case False
    with eq have "t' = t" by (auto split: if_splits)
    with False show ?thesis by auto
  qed
qed

lemma evict_loop_invariant:
  assumes "evict_loop s sz = Some s'" and "P s" and "\<And>t. P t \<Longrightarrow> P (evictLRU t)"
  shows "P s'"
proof -
  from evict_loop_cases [OF assms(1)]
  have "\<forall>P. P s \<longrightarrow> (\<forall>t. P t \<longrightarrow> P (evictLRU t)) \<longrightarrow> P s'" by (rule conjunct1)
  then have "P s \<longrightarrow> (\<forall>t. P t \<longrightarrow> P (evictLRU t)) \<longrightarrow> P s'" by (rule spec)
  with assms(2,3) show ?thesis by simp
qed

lemma evict_loop_exit:
  assumes "evict_loop s sz = Some s'"
  shows "totalBytes s' + int sz \<le> maxBytes s' \<or> cache s' = []"
proof -
  from evict_loop_cases [OF assms]
  have "\<not> (maxBytes s' < totalBytes s' + int sz \<and> cache s' \<noteq> [])" by (rule conjunct2)
  then show ?thesis by auto
qed

lemma evictLRU_frame:
  "queue (evictLRU s) = queue s" "loads (evictLRU s) = loads s" "pending (evictLRU s) = pending s"
  "promises (evictLRU s) = promises s" "activeLoads (evictLRU s) = activeLoads s"
  "maxConcurrent (evictLRU s) = maxConcurrent s" "maxBytes (evictLRU s) = maxBytes s"
  by (simp_all add: evictLRU_def Let_def split: list.split option.split)

lemma evict_loop_frame:
  assumes "evict_loop s sz = Some s'"
  shows "queue s' = queue s \<and> loads s' = loads s \<and> pending s' = pending s
       \<and> promises s' = promises s \<and> activeLoads s' = activeLoads s
       \<and> maxConcurrent s' = maxConcurrent s \<and> maxBytes s' = maxBytes s"
  by (rule evict_loop_invariant [OF assms]) (simp_all add: evictLRU_frame)

lemma load_frame:
  assumes "load s k b w h = Some (s', e)"
  shows "queue s' = queue s \<and> loads s' = loads s \<and> pending s' = pending s
       \<and> promises s' = promises s \<and> activeLoads s' = activeLoads s
       \<and> maxConcurrent s' = maxConcurrent s \<and> maxBytes s' = maxBytes s"
proof -
  from assms obtain s1 where 1: "evict_loop s (w * h * 4) = Some s1"
    and 2: "s' = s1\<lparr>cache := map_set (cache s1) k e, totalBytes := totalBytes s1 + int (w * h * 4)\<rparr>"
    by (auto simp: load_def Let_def split: option.splits)
  from evict_loop_frame [OF 1] 2 show ?thesis by simp
qed

section \<open>The scheduler\<close>

lemma processQueue_idle:
  "queue s = [] \<or> maxConcurrent s \<le> activeLoads s \<Longrightarrow> processQueue s = s"
  by (subst processQueue.simps) auto

lemma processQueue_eq:
  "processQueue s =
     s\<lparr>queue := take (length (queue s) - free_slots s) (queue s),
       activeLoads := activeLoads s + int (free_slots s),
       loads := loads s @ map start_load (rev (drop (length (queue s) - free_slots s) (queue s)))\<rparr>"
proof (induction s rule: processQueue.induct)
  case (1 s)
  show ?case
  proof (cases "length (queue s) > 0 \<and> activeLoads s < maxConcurrent s")
    case False
    then have "free_slots s = 0" by (auto simp: free_slots_def)
    moreover from False have "processQueue s = s" by (subst processQueue.simps) auto
    ultimately show ?thesis by simp
  next
    case True
    let ?q = "queue s"
    let ?s1 = "s\<lparr>queue := butlast ?q, activeLoads := activeLoads s + 1,
                  loads := loads s @ [\<lparr> item = last ?q, phase = Decoding \<rparr>]\<rparr>"
    from True have q: "?q \<noteq> []" by auto
    from True have n: "free_slots s = Suc (free_slots ?s1)"
      by (auto simp: free_slots_def min_def)
    have le: "free_slots ?s1 \<le> length ?q - 1" by (simp add: free_slots_def)
    let ?m = "length ?q - Suc (free_slots ?s1)"
    have m: "?m < length ?q" using q by (cases ?q) auto
    have t: "take ?m (butlast ?q) = take ?m ?q"
      using m by (simp add: take_butlast)
    have d: "drop ?m ?q = drop ?m (butlast ?q) @ [last ?q]"
    proof -
      have "drop ?m ?q = drop ?m (butlast ?q @ [last ?q])" using q by simp
      also have "\<dots> = drop ?m (butlast ?q) @ [last ?q]" using m by simp
      finally show ?thesis .
    qed
    have "processQueue s = processQueue ?s1" using True by (subst processQueue.simps) simp
    also have "\<dots> = ?s1\<lparr>queue := take (length (queue ?s1) - free_slots ?s1) (queue ?s1),
       activeLoads := activeLoads ?s1 + int (free_slots ?s1),
       loads := loads ?s1 @ map start_load (rev (drop (length (queue ?s1) - free_slots ?s1) (queue ?s1)))\<rparr>"
      using 1 True by simp
    finally show ?thesis
      using n t d by (simp add: start_load_def)
  qed
qed

lemma processQueue_fields:
  "cache (processQueue s) = cache s" "pending (processQueue s) = pending s"
  "promises (processQueue s) = promises s" "totalBytes (processQueue s) = totalBytes s"
  "maxBytes (processQueue s) = maxBytes s" "maxConcurrent (processQueue s) = maxConcurrent s"
  "closed (processQueue s) = closed s"
  "queue (processQueue s) = take (length (queue s) - free_slots s) (queue s)"
  "activeLoads (processQueue s) = activeLoads s + int (free_slots s)"
  "loads (processQueue s) =
     loads s @ map start_load (rev (drop (length (queue s) - free_slots s) (queue s)))"
  by (subst processQueue_eq, simp)+

lemma set_take_drop: "set (take n xs) \<union> set (drop n xs) = set xs"
  by (metis append_take_drop_id set_append)

lemma distinct_take_drop:
  "distinct (map f xs @ ys) \<Longrightarrow> distinct (map f (take n xs) @ ys @ map f (rev (drop n xs)))"
proof -
  assume d: "distinct (map f xs @ ys)"
  have "map f xs = map f (take n xs) @ map f (drop n xs)"
    by (metis append_take_drop_id map_append)
  with d have "distinct (map f (take n xs) @ map f (drop n xs) @ ys)" by simp
  then show ?thesis by (auto simp: rev_map [symmetric])
qed

lemma wf0_processQueue: "wf0 s \<Longrightarrow> wf0 (processQueue s)"
proof -
  assume w: "wf0 s"
  let ?n = "free_slots s" let ?m = "length (queue s) - free_slots s"
  have ids: "req_ids (processQueue s) =
      map promise (take ?m (queue s)) @ map (\<lambda>l. promise (item l)) (loads s) @ map promise (rev (drop ?m (queue s)))"
    by (simp add: req_ids_def processQueue_fields start_load_def comp_def)
  have s: "set (req_ids (processQueue s)) = set (req_ids s)"
    unfolding ids using set_take_drop [of ?m "queue s"]
    by (auto simp: req_ids_def)
  have d: "distinct (req_ids (processQueue s))"
    unfolding ids using w by (intro distinct_take_drop) (simp add: wf0_def req_ids_def)
  have q: "set (queue (processQueue s)) \<subseteq> set (queue s)"
    by (simp add: processQueue_fields set_take_subset)
  have l: "\<forall>l \<in> set (loads (processQueue s)). l \<in> set (loads s) \<or> (item l \<in> set (queue s) \<and> phase l = Decoding)"
    by (auto simp: processQueue_fields start_load_def dest: in_set_dropD)
  have a: "activeLoads (processQueue s) = int (length (loads (processQueue s)))"
    using w by (simp add: processQueue_fields wf0_def free_slots_def)
  have c: "activeLoads (processQueue s) \<le> maxConcurrent (processQueue s)"
    using w by (auto simp: processQueue_fields wf0_def free_slots_def min_def)
  show ?thesis
    unfolding wf0_def
    using s d q l a c w
    by (simp add: processQueue_fields(3) wf0_def) blast
qed

lemma wf_processQueue: "wf0 s \<Longrightarrow> wf (processQueue s)"
proof -
  assume w: "wf0 s"
  then have le: "activeLoads s \<le> maxConcurrent s" by (simp add: wf0_def)
  have "queue (processQueue s) \<noteq> [] \<longrightarrow> activeLoads (processQueue s) = maxConcurrent (processQueue s)"
    using le by (auto simp: processQueue_fields free_slots_def min_def split: if_splits)
  with wf0_processQueue [OF w] show ?thesis by (simp add: wf_def)
qed

section \<open>Scheduler invariant\<close>

lemma invalidate_fields:
  "cache (invalidate s k) = map_delete (cache s) k"
  "pending (invalidate s k) = map_delete (pending s) k"
  "queue (invalidate s k) = filter (\<lambda>it. volumeUuid it \<noteq> k) (queue s)"
  "loads (invalidate s k) = loads s"
  "promises (invalidate s k) = promises s"
  "activeLoads (invalidate s k) = activeLoads s"
  "maxConcurrent (invalidate s k) = maxConcurrent s"
  "maxBytes (invalidate s k) = maxBytes s"
  "totalBytes (invalidate s k) =
     (case map_get (cache s) k of None \<Rightarrow> totalBytes s | Some e \<Rightarrow> totalBytes s - int (sizeB e))"
  "closed (invalidate s k) =
     (case map_get (cache s) k of None \<Rightarrow> closed s | Some e \<Rightarrow> closed s @ [bitmap e])"
  by (simp_all add: invalidate_def Let_def map_delete_absent split: option.split)

lemma touch_frame:
  "queue (touch s k) = queue s" "loads (touch s k) = loads s" "pending (touch s k) = pending s"
  "promises (touch s k) = promises s" "activeLoads (touch s k) = activeLoads s"
  "maxConcurrent (touch s k) = maxConcurrent s" "maxBytes (touch s k) = maxBytes s"
  "totalBytes (touch s k) = totalBytes s" "closed (touch s k) = closed s"
  by (simp_all add: touch_def split: option.split)

lemma wf0_cong:
  "queue t = queue s \<Longrightarrow> loads t = loads s \<Longrightarrow> promises t = promises s \<Longrightarrow>
   activeLoads t = activeLoads s \<Longrightarrow> maxConcurrent t = maxConcurrent s \<Longrightarrow> wf0 t = wf0 s"
  by (simp add: wf0_def req_ids_def)

lemma wf_cong:
  "queue t = queue s \<Longrightarrow> loads t = loads s \<Longrightarrow> promises t = promises s \<Longrightarrow>
   activeLoads t = activeLoads s \<Longrightarrow> maxConcurrent t = maxConcurrent s \<Longrightarrow> wf t = wf s"
  by (simp add: wf_def wf0_def req_ids_def)

lemma wf_imp_wf0: "wf s \<Longrightarrow> wf0 s"
  by (simp add: wf_def)

lemma wf_touch: "wf (touch s k) = wf s"
  by (rule wf_cong) (simp_all add: touch_frame)

lemma wf_clear: "wf (clear s) = wf s"
  by (rule wf_cong) (simp_all add: clear_def)

lemma distinct_filter_append:
  "distinct (map f xs @ ys) \<Longrightarrow> distinct (map f (filter P xs) @ ys)"
  by (induction xs) auto

lemma wf_invalidate: "wf s \<Longrightarrow> wf (invalidate s k)"
proof -
  assume w: "wf s"
  let ?t = "invalidate s k"
  have q: "set (queue ?t) \<subseteq> set (queue s)" by (auto simp: invalidate_fields)
  have ids: "set (req_ids ?t) \<subseteq> set (req_ids s)"
    by (auto simp: req_ids_def invalidate_fields)
  have d: "distinct (req_ids ?t)"
    using w unfolding req_ids_def invalidate_fields wf_def wf0_def
    by (intro distinct_filter_append) simp
  have e: "queue ?t \<noteq> [] \<Longrightarrow> queue s \<noteq> []" by (auto simp: invalidate_fields)
  show ?thesis
    unfolding wf_def wf0_def
    using w q ids d e
    apply (simp only: invalidate_fields(4-7))
    apply (unfold wf_def wf0_def)
    apply (intro conjI ballI impI)
    apply blast+
    done
qed

lemma get_miss:
  "map_get (cache s) k = None \<Longrightarrow> map_get (pending s) k = None \<Longrightarrow>
   get s k f = (Follows (length (promises s)), processQueue (enqueue s k f))"
  by (simp add: get_def enqueue_def Let_def)

lemma get_joined:
  "map_get (cache s) k = None \<Longrightarrow> map_get (pending s) k = Some p \<Longrightarrow> get s k f = (Follows p, s)"
  by (simp add: get_def)

lemma get_hit:
  "map_get (cache s) k = Some e \<Longrightarrow> get s k f = (Resolved e, touch s k)"
  by (simp add: get_def)

lemma wf0_enqueue: "wf0 s \<Longrightarrow> wf0 (enqueue s k f)"
proof -
  assume w: "wf0 s"
  let ?t = "enqueue s k f" let ?p = "length (promises s)"
  have ids: "req_ids ?t = map promise (queue s) @ ?p # map (\<lambda>l. promise (item l)) (loads s)"
    by (simp add: req_ids_def enqueue_def)
  from w have lt: "\<forall>p \<in> set (req_ids s). p < ?p" by (simp add: wf0_def)
  then have fresh: "?p \<notin> set (req_ids s)" by blast
  have d: "distinct (req_ids ?t)"
    using w fresh unfolding ids by (simp add: wf0_def req_ids_def)
  have b: "\<forall>p \<in> set (req_ids ?t). p < length (promises ?t)"
    using lt unfolding ids by (auto simp: req_ids_def enqueue_def less_Suc_eq)
  have pq: "\<forall>q \<in> set (queue ?t). promises ?t ! promise q = Pending"
  proof
    fix q assume "q \<in> set (queue ?t)"
    then consider "q \<in> set (queue s)" | "promise q = ?p" by (auto simp: enqueue_def)
    then show "promises ?t ! promise q = Pending"
    proof cases
      case 1
      with w have "promises s ! promise q = Pending" "promise q < ?p"
        by (simp_all add: wf0_def req_ids_def)
      then show ?thesis by (simp add: enqueue_def nth_append)
    next
      case 2
      then show ?thesis by (simp add: enqueue_def nth_append)
    qed
  qed
  have pl: "\<forall>l \<in> set (loads ?t). phase l \<noteq> Delivered \<longrightarrow> promises ?t ! promise (item l) = Pending"
  proof (intro ballI impI)
    fix l assume "l \<in> set (loads ?t)" "phase l \<noteq> Delivered"
    then have "l \<in> set (loads s)" "phase l \<noteq> Delivered" by (simp_all add: enqueue_def)
    with w have "promises s ! promise (item l) = Pending" "promise (item l) < ?p"
      by (simp_all add: wf0_def req_ids_def)
    then show "promises ?t ! promise (item l) = Pending" by (simp add: enqueue_def nth_append)
  qed
  have a: "activeLoads ?t = int (length (loads ?t))" "activeLoads ?t \<le> maxConcurrent ?t"
    using w by (simp_all add: wf0_def enqueue_def)
  show ?thesis unfolding wf0_def using d b pq pl a by blast
qed

lemma wf_get: "wf s \<Longrightarrow> wf (snd (get s k f))"
proof (cases "map_get (cache s) k")
  case (Some e)
  assume "wf s" with Some show ?thesis by (simp add: get_hit wf_touch)
next
  case None
  assume w: "wf s"
  show ?thesis
  proof (cases "map_get (pending s) k")
    case (Some p)
    with None w show ?thesis by (simp add: get_joined)
  next
    case N2: None
    from w have "wf0 (enqueue s k f)" by (simp add: wf0_enqueue wf_imp_wf0)
    then show ?thesis using None N2 by (simp add: get_miss wf_processQueue)
  qed
qed

lemma wf_getSync: "wf s \<Longrightarrow> wf (snd (getSync s k))"
  by (simp add: getSync_def wf_touch split: option.split)

lemma set_phase_fields:
  "cache (set_phase s p ph) = cache s" "pending (set_phase s p ph) = pending s"
  "promises (set_phase s p ph) = promises s" "totalBytes (set_phase s p ph) = totalBytes s"
  "maxBytes (set_phase s p ph) = maxBytes s" "maxConcurrent (set_phase s p ph) = maxConcurrent s"
  "closed (set_phase s p ph) = closed s" "queue (set_phase s p ph) = queue s"
  "activeLoads (set_phase s p ph) = activeLoads s"
  "loads (set_phase s p ph) =
     map (\<lambda>l. if promise (item l) = p then l\<lparr>phase := ph\<rparr> else l) (loads s)"
  by (simp_all add: set_phase_def)

lemma req_ids_set_phase: "req_ids (set_phase s p ph) = req_ids s"
  by (simp add: req_ids_def set_phase_fields comp_def if_distrib [of "\<lambda>l. promise (item l)"] cong: if_cong)

lemma same_id_same_load:
  "distinct (req_ids s) \<Longrightarrow> l \<in> set (loads s) \<Longrightarrow> l' \<in> set (loads s) \<Longrightarrow>
   promise (item l) = promise (item l') \<Longrightarrow> l = l'"
  by (auto simp: req_ids_def distinct_map dest: inj_onD)

lemma queued_not_loading:
  "distinct (req_ids s) \<Longrightarrow> q \<in> set (queue s) \<Longrightarrow> l \<in> set (loads s) \<Longrightarrow>
   promise q \<noteq> promise (item l)"
  by (auto simp: req_ids_def)

lemma wf_set_phase:
  assumes w: "wf s"
    and ok: "ph \<noteq> Delivered \<Longrightarrow> \<forall>l \<in> set (loads s). promise (item l) = p \<longrightarrow> phase l \<noteq> Delivered"
  shows "wf (set_phase s p ph)"
proof -
  let ?t = "set_phase s p ph"
  have pl: "\<forall>l \<in> set (loads ?t). phase l \<noteq> Delivered \<longrightarrow> promises s ! promise (item l) = Pending"
  proof (intro ballI impI)
    fix l' assume m: "l' \<in> set (loads ?t)" and nd: "phase l' \<noteq> Delivered"
    from m obtain l where l: "l \<in> set (loads s)"
      and eq: "l' = (if promise (item l) = p then l\<lparr>phase := ph\<rparr> else l)"
      by (auto simp: set_phase_fields)
    have "phase l \<noteq> Delivered"
    proof (cases "promise (item l) = p")
      case True
      with eq nd have "ph \<noteq> Delivered" by simp
      from ok [OF this] l True show ?thesis by blast
    next
      case False
      with eq nd show ?thesis by simp
    qed
    with w l have "promises s ! promise (item l) = Pending" by (simp add: wf_def wf0_def)
    moreover have "promise (item l') = promise (item l)" using eq by simp
    ultimately show "promises s ! promise (item l') = Pending" by simp
  qed
  have len: "length (loads ?t) = length (loads s)" by (simp add: set_phase_fields)
  show ?thesis
    using w pl
    by (auto simp: wf_def wf0_def req_ids_set_phase set_phase_fields(3,6,8,9) len)
qed

lemma find_SomeD: "find P xs = Some x \<Longrightarrow> x \<in> set xs \<and> P x"
  by (auto simp: find_Some_iff)

lemma wf_decode_done:
  assumes w: "wf s" and d: "decode_done s p r = Some s'"
  shows "wf s'"
proof (cases "find (\<lambda>l. promise (item l) = p \<and> phase l = Decoding) (loads s)")
  case None
  with d w show ?thesis by (simp add: decode_done_def)
next
  case (Some l)
  then have l: "l \<in> set (loads s)" "promise (item l) = p" "phase l = Decoding"
    using find_SomeD [OF Some] by simp_all
  from w have dist: "distinct (req_ids s)" by (simp add: wf_def wf0_def)
  have nd: "\<forall>l' \<in> set (loads s). promise (item l') = p \<longrightarrow> phase l' \<noteq> Delivered"
  proof (intro ballI impI)
    fix l' assume "l' \<in> set (loads s)" "promise (item l') = p"
    with same_id_same_load [OF dist l(1) this(1)] l show "phase l' \<noteq> Delivered" by simp
  qed
  show ?thesis
  proof (cases r)
    case DecodeError
    with d Some have "s' = set_phase s p (Settled None)" by (simp add: decode_done_def)
    with w nd show ?thesis by (simp add: wf_set_phase)
  next
    case (Bitmap wd ht)
    with d Some obtain s1 e where ld: "load s (volumeUuid (item l)) p wd ht = Some (s1, e)"
      and s': "s' = set_phase s1 p (Settled (Some e))"
      by (auto simp: decode_done_def split: option.splits)
    from load_frame [OF ld] have fr: "queue s1 = queue s" "loads s1 = loads s"
      "promises s1 = promises s" "activeLoads s1 = activeLoads s" "maxConcurrent s1 = maxConcurrent s"
      by simp_all
    then have "wf s1 = wf s" by (rule wf_cong)
    with w have "wf s1" by simp
    moreover have "\<forall>l' \<in> set (loads s1). promise (item l') = p \<longrightarrow> phase l' \<noteq> Delivered"
      using nd fr by simp
    ultimately show ?thesis unfolding s' by (simp add: wf_set_phase)
  qed
qed

lemma settle_length: "length (settle ps p v) = length ps"
  by (simp add: settle_def)

lemma settle_other: "q \<noteq> p \<Longrightarrow> settle ps p v ! q = ps ! q"
  by (simp add: settle_def)

lemma settle_pending: "p < length ps \<Longrightarrow> ps ! p = Pending \<Longrightarrow> settle ps p v ! p = v"
  by (simp add: settle_def)

lemma deliver_found:
  "find (\<lambda>l. promise (item l) = p \<and> phase l \<noteq> Decoding \<and> phase l \<noteq> Delivered) (loads s) = Some l \<Longrightarrow>
   deliver s p =
     set_phase (s\<lparr>promises := settle (promises s) p (outcome l),
                  pending := map_delete (pending s) (volumeUuid (item l))\<rparr>) p Delivered"
  by (simp add: deliver_def outcome_def Let_def)

lemma deliver_idle:
  "find (\<lambda>l. promise (item l) = p \<and> phase l \<noteq> Decoding \<and> phase l \<noteq> Delivered) (loads s) = None \<Longrightarrow>
   deliver s p = s"
  by (simp add: deliver_def)

lemma wf_deliver:
  assumes w: "wf s"
  shows "wf (deliver s p)"
proof (cases "find (\<lambda>l. promise (item l) = p \<and> phase l \<noteq> Decoding \<and> phase l \<noteq> Delivered) (loads s)")
  case None
  with w show ?thesis by (simp add: deliver_idle)
next
  case (Some l)
  from find_SomeD [OF Some] have l: "l \<in> set (loads s)" "promise (item l) = p" by simp_all
  from w have dist: "distinct (req_ids s)" by (simp add: wf_def wf0_def)
  let ?s1 = "s\<lparr>promises := settle (promises s) p (outcome l),
                pending := map_delete (pending s) (volumeUuid (item l))\<rparr>"
  let ?t = "set_phase ?s1 p Delivered"
  have ids: "req_ids ?t = req_ids s" by (simp add: req_ids_set_phase) (simp add: req_ids_def)
  have pq: "\<forall>q \<in> set (queue ?t). promises ?t ! promise q = Pending"
  proof
    fix q assume "q \<in> set (queue ?t)"
    then have q: "q \<in> set (queue s)" by (simp add: set_phase_fields)
    from queued_not_loading [OF dist q l(1)] l(2) have "promise q \<noteq> p" by simp
    moreover from w q have "promises s ! promise q = Pending" by (simp add: wf_def wf0_def)
    ultimately show "promises ?t ! promise q = Pending"
      by (simp add: set_phase_fields settle_other)
  qed
  have pl: "\<forall>l' \<in> set (loads ?t). phase l' \<noteq> Delivered \<longrightarrow> promises ?t ! promise (item l') = Pending"
  proof (intro ballI impI)
    fix l' assume m: "l' \<in> set (loads ?t)" and nd: "phase l' \<noteq> Delivered"
    from m obtain l0 where l0: "l0 \<in> set (loads s)"
      and eq: "l' = (if promise (item l0) = p then l0\<lparr>phase := Delivered\<rparr> else l0)"
      by (auto simp: set_phase_fields)
    from eq nd have np: "promise (item l0) \<noteq> p" and same: "l' = l0" by (auto split: if_splits)
    with w l0 nd have "promises s ! promise (item l0) = Pending" by (simp add: wf_def wf0_def)
    with np same show "promises ?t ! promise (item l') = Pending"
      by (simp add: set_phase_fields settle_other)
  qed
  have len: "length (loads ?t) = length (loads s)" by (simp add: set_phase_fields)
  have "wf ?t"
    using w pq pl
    by (auto simp: wf_def wf0_def ids len set_phase_fields(3,6,8,9) settle_length)
  then show ?thesis by (simp add: deliver_found [OF Some])
qed

lemma length_filter_other:
  "distinct (map f xs) \<Longrightarrow> x \<in> set xs \<Longrightarrow> length (filter (\<lambda>y. f y \<noteq> f x) xs) = length xs - 1"
proof (induction xs)
  case Nil
  then show ?case by simp
next
  case (Cons a xs)
  show ?case
  proof (cases "a = x")
    case True
    with Cons.prems have "\<forall>y \<in> set xs. f y \<noteq> f x" by (auto simp: image_iff)
    then have "filter (\<lambda>y. f y \<noteq> f x) xs = xs" by (simp add: filter_id_conv)
    with True show ?thesis by simp
  next
    case False
    with Cons.prems have x: "x \<in> set xs" and ne: "f a \<noteq> f x" by auto
    with Cons have "length (filter (\<lambda>y. f y \<noteq> f x) xs) = length xs - 1" by simp
    moreover from x have "length xs > 0" by (cases xs) auto
    ultimately show ?thesis using ne by simp
  qed
qed

lemma load_finally_found:
  "find (\<lambda>l. promise (item l) = p \<and> phase l = Delivered) (loads s) = Some l \<Longrightarrow>
   load_finally s p =
     processQueue (s\<lparr>loads := filter (\<lambda>l. promise (item l) \<noteq> p) (loads s),
                     activeLoads := activeLoads s - 1\<rparr>)"
  by (simp add: load_finally_def)

lemma load_finally_idle:
  "find (\<lambda>l. promise (item l) = p \<and> phase l = Delivered) (loads s) = None \<Longrightarrow> load_finally s p = s"
  by (simp add: load_finally_def)

lemma wf_load_finally:
  assumes w: "wf s"
  shows "wf (load_finally s p)"
proof (cases "find (\<lambda>l. promise (item l) = p \<and> phase l = Delivered) (loads s)")
  case None
  with w show ?thesis by (simp add: load_finally_idle)
next
  case (Some l)
  from find_SomeD [OF Some] have l: "l \<in> set (loads s)" "promise (item l) = p" by simp_all
  let ?s1 = "s\<lparr>loads := filter (\<lambda>l. promise (item l) \<noteq> p) (loads s), activeLoads := activeLoads s - 1\<rparr>"
  from w have w0: "wf0 s" by (simp add: wf_def)
  then have dl: "distinct (map (\<lambda>l. promise (item l)) (loads s))" by (simp add: wf0_def req_ids_def)
  have len: "length (filter (\<lambda>l. promise (item l) \<noteq> p) (loads s)) = length (loads s) - 1"
    using length_filter_other [OF dl l(1)] l(2) by simp
  from l(1) have pos: "length (loads s) > 0" by (cases "loads s") auto
  then have arith: "int (length (loads s)) - 1 = int (length (loads s) - 1)"
    by (cases "loads s") simp_all
  have ids: "req_ids ?s1 = map promise (queue s) @ map (\<lambda>l. promise (item l)) (filter (\<lambda>l. promise (item l) \<noteq> p) (loads s))"
    by (simp add: req_ids_def)
  have sub: "set (req_ids ?s1) \<subseteq> set (req_ids s)" unfolding ids by (auto simp: req_ids_def)
  have d: "distinct (req_ids ?s1)"
    unfolding ids using w0 by (auto simp: wf0_def req_ids_def distinct_map_filter)
  have b: "\<forall>q \<in> set (req_ids ?s1). q < length (promises ?s1)"
    using w0 sub by (auto simp: wf0_def)
  have pq: "\<forall>q \<in> set (queue ?s1). promises ?s1 ! promise q = Pending"
    using w0 by (simp add: wf0_def)
  have pl: "\<forall>l \<in> set (loads ?s1). phase l \<noteq> Delivered \<longrightarrow> promises ?s1 ! promise (item l) = Pending"
    using w0 by (simp add: wf0_def)
  have a: "activeLoads ?s1 = int (length (loads ?s1))"
  proof -
    have "activeLoads ?s1 = activeLoads s - 1" by simp
    also have "\<dots> = int (length (loads s)) - 1" using w0 by (simp add: wf0_def)
    also have "\<dots> = int (length (loads s) - 1)" by (rule arith)
    also have "\<dots> = int (length (loads ?s1))" by (simp add: len)
    finally show ?thesis .
  qed
  have c: "activeLoads ?s1 \<le> maxConcurrent ?s1"
    using w0 by (simp add: wf0_def)
  have "wf0 ?s1"
    unfolding wf0_def using d b pq pl a c by (intro conjI)
  then show ?thesis by (simp add: load_finally_found [OF Some] wf_processQueue)
qed

lemma wf_step: "wf s \<Longrightarrow> step s e = Some s' \<Longrightarrow> wf s'"
  by (cases e) (auto simp: wf_get wf_getSync wf_invalidate wf_clear wf_deliver wf_load_finally
                     intro: wf_decode_done)

lemma wf_run: "wf s \<Longrightarrow> run s es = Some s' \<Longrightarrow> wf s'"
proof (induction es arbitrary: s)
  case Nil
  then show ?case by simp
next
  case (Cons e es)
  then show ?case by (auto split: option.splits dest: wf_step)
qed

lemma wf_init: "wf init"
  by (simp add: wf_def wf0_def init_def req_ids_def)

section \<open>Invalidation\<close>

text \<open>
  Claim C7. When the store holds an entry \<open>e\<close> for the key, \<open>invalidate\<close> closes the bitmap of
  \<open>e\<close>, lowers the byte counter by exactly the size of \<open>e\<close> and removes the entry, the other
  entries keeping their order. When the store holds no entry for the key, the store, the
  byte counter and the closed bitmaps stay as they are. In both cases \<open>has\<close> is false for the
  key afterwards, the pending map has no promise for the key, and the admission queue is the
  old queue without the requests for the key.
\<close>

theorem invalidate_effect:
  "(map_get (cache s) k = Some e \<longrightarrow>
       closed (invalidate s k) = closed s @ [bitmap e]
     \<and> totalBytes (invalidate s k) = totalBytes s - int (sizeB e)
     \<and> cache (invalidate s k) = filter (\<lambda>kv. fst kv \<noteq> k) (cache s))
   \<and> (map_get (cache s) k = None \<longrightarrow>
       closed (invalidate s k) = closed s
     \<and> totalBytes (invalidate s k) = totalBytes s
     \<and> cache (invalidate s k) = cache s)
   \<and> \<not> has (invalidate s k) k
   \<and> map_get (pending (invalidate s k)) k = None
   \<and> queue (invalidate s k) = filter (\<lambda>it. volumeUuid it \<noteq> k) (queue s)
   \<and> (\<forall>it \<in> set (queue (invalidate s k)). volumeUuid it \<noteq> k)"
  by (simp add: invalidate_fields has_def map_has_get map_get_delete_same map_delete_absent)
     (simp add: map_delete_def)

theorem invalidate_effect_witness:
  "closed (invalidate two_cached ''a'') = [0]
   \<and> totalBytes (invalidate two_cached ''a'') = 800
   \<and> cache (invalidate two_cached ''a'') = [(''b'', entry_b)]
   \<and> totalBytes (invalidate two_cached ''c'') = 1200
   \<and> cache (invalidate two_cached ''c'') = [(''a'', entry_a), (''b'', entry_b)]
   \<and> \<not> has (invalidate two_cached ''a'') ''a''
   \<and> map_get (pending (invalidate two_cached ''c'')) ''c'' = None
   \<and> queue (invalidate two_cached ''c'') = []
   \<and> queue (invalidate two_cached ''a'') = queue two_cached"
  using invalidate_effect [of two_cached "''a''" entry_a]
        invalidate_effect [of two_cached "''c''" entry_a]
  by (simp add: two_cached_def init_def map_get_def entry_a_def entry_b_def)

section \<open>Recency\<close>

text \<open>
  Claim C8. A hit of \<open>get\<close> or \<open>getSync\<close> on a key whose entry is \<open>e\<close> returns \<open>e\<close> and
  changes the state by \<open>touch\<close> alone: the store becomes the other entries in their old
  order followed by the key with the same \<open>e\<close>, and no other field changes, so the byte total
  is the same. \<open>has\<close> is membership of the key among the keys of the store, and calling it
  leaves the state as it is.
\<close>

theorem touch_effect:
  "map_get (cache s) k = Some e \<Longrightarrow>
     get s k f = (Resolved e, touch s k)
   \<and> getSync s k = (Some e, touch s k)
   \<and> touch s k = s\<lparr>cache := filter (\<lambda>kv. fst kv \<noteq> k) (cache s) @ [(k, e)]\<rparr>
   \<and> map_get (cache (touch s k)) k = Some e
   \<and> totalBytes (touch s k) = totalBytes s
   \<and> has s k' = (k' \<in> fst ` set (cache s))
   \<and> step s (Has k') = Some s"
  apply (simp add: get_def getSync_def touch_def map_set_delete has_def map_has_def)
  apply (simp add: map_get_append map_get_delete_same)
  apply (simp add: map_delete_def)
  done

theorem touch_effect_witness:
  "get two_cached ''a'' 5 =
     (Resolved entry_a, two_cached\<lparr>cache := [(''b'', entry_b), (''a'', entry_a)]\<rparr>)
   \<and> getSync two_cached ''a'' =
     (Some entry_a, two_cached\<lparr>cache := [(''b'', entry_b), (''a'', entry_a)]\<rparr>)
   \<and> totalBytes (touch two_cached ''a'') = 1200
   \<and> has two_cached ''b'' \<and> \<not> has two_cached ''c''"
  using touch_effect [of two_cached "''a''" entry_a 5 "''b''"]
        touch_effect [of two_cached "''a''" entry_a 5 "''c''"]
  by (simp add: two_cached_def init_def map_get_def)

section \<open>Evaluation on concrete inputs; the constants of an instance\<close>

lemmas eval_ops =
  init_def get_def map_get_def processQueue.simps invalidate_def map_delete_def decode_done_def
  load_def evict_loop.simps evictLRU_def set_phase_def deliver_def settle_def load_finally_def
  getSync_def clear_def touch_def Let_def

lemma get_fields:
  "maxConcurrent (snd (get s k f)) = maxConcurrent s" "maxBytes (snd (get s k f)) = maxBytes s"
  by (auto simp: get_def touch_frame processQueue_fields Let_def split: option.split)

lemma deliver_fields:
  "maxConcurrent (deliver s p) = maxConcurrent s" "maxBytes (deliver s p) = maxBytes s"
  "cache (deliver s p) = cache s" "totalBytes (deliver s p) = totalBytes s"
  "closed (deliver s p) = closed s" "queue (deliver s p) = queue s"
  "activeLoads (deliver s p) = activeLoads s"
  by (cases "find (\<lambda>l. promise (item l) = p \<and> phase l \<noteq> Decoding \<and> phase l \<noteq> Delivered) (loads s)";
      simp add: deliver_found deliver_idle set_phase_fields)+

lemma load_finally_fields:
  "maxConcurrent (load_finally s p) = maxConcurrent s" "maxBytes (load_finally s p) = maxBytes s"
  "cache (load_finally s p) = cache s" "totalBytes (load_finally s p) = totalBytes s"
  "closed (load_finally s p) = closed s" "pending (load_finally s p) = pending s"
  "promises (load_finally s p) = promises s"
  by (cases "find (\<lambda>l. promise (item l) = p \<and> phase l = Delivered) (loads s)";
      simp add: load_finally_found load_finally_idle processQueue_fields)+

lemma decode_done_fields:
  assumes "decode_done s p r = Some s'"
  shows "maxConcurrent s' = maxConcurrent s \<and> maxBytes s' = maxBytes s \<and> queue s' = queue s
       \<and> pending s' = pending s \<and> promises s' = promises s \<and> activeLoads s' = activeLoads s
       \<and> map item (loads s') = map item (loads s)"
proof (cases "find (\<lambda>l. promise (item l) = p \<and> phase l = Decoding) (loads s)")
  case None
  with assms show ?thesis by (simp add: decode_done_def)
next
  case (Some l)
  have it: "\<And>t ph. map item (loads (set_phase t p ph)) = map item (loads t)"
    by (simp add: set_phase_fields comp_def if_distrib [of item] cong: if_cong)
  show ?thesis
  proof (cases r)
    case DecodeError
    with assms Some have "s' = set_phase s p (Settled None)" by (simp add: decode_done_def)
    then show ?thesis by (simp add: set_phase_fields(1-9) it)
  next
    case (Bitmap wd ht)
    with assms Some obtain s1 e where ld: "load s (volumeUuid (item l)) p wd ht = Some (s1, e)"
      and s': "s' = set_phase s1 p (Settled (Some e))"
      by (auto simp: decode_done_def split: option.splits)
    from load_frame [OF ld] show ?thesis unfolding s' by (simp add: set_phase_fields(1-9) it)
  qed
qed

lemma consts_step:
  "step s e = Some s' \<Longrightarrow> maxConcurrent s' = maxConcurrent s \<and> maxBytes s' = maxBytes s"
  by (cases e)
     (auto simp: get_fields getSync_def touch_frame invalidate_fields clear_def deliver_fields
                 load_finally_fields split: option.split dest: decode_done_fields)

lemma consts_run:
  "run s es = Some s' \<Longrightarrow> maxConcurrent s' = maxConcurrent s \<and> maxBytes s' = maxBytes s"
proof (induction es arbitrary: s)
  case Nil
  then show ?case by simp
next
  case (Cons e es)
  then show ?case by (auto split: option.splits dest: consts_step)
qed

section \<open>The concurrency ceiling\<close>

lemma items_set_phase: "map item (loads (set_phase t p ph)) = map item (loads t)"
  by (simp add: set_phase_fields comp_def if_distrib [of item] cong: if_cong)

lemma full_no_start:
  assumes w: "wf s" and q: "queue s \<noteq> []" and st: "step s e = Some s'"
    and nf: "\<And>p. e \<noteq> Finally p"
  shows "map item (loads s') = map item (loads s)"
proof -
  from w q have full: "activeLoads s = maxConcurrent s" by (simp add: wf_def)
  show ?thesis
  proof (cases e)
    case (Get k f)
    have "loads (snd (get s k f)) = loads s"
    proof (cases "map_get (cache s) k")
      case (Some e)
      then show ?thesis by (simp add: get_hit touch_frame)
    next
      case None
      show ?thesis
      proof (cases "map_get (pending s) k")
        case (Some p)
        with None show ?thesis by (simp add: get_joined)
      next
        case N2: None
        have "maxConcurrent (enqueue s k f) \<le> activeLoads (enqueue s k f)"
          using full by (simp add: enqueue_def)
        then have "processQueue (enqueue s k f) = enqueue s k f" by (simp add: processQueue_idle)
        with None N2 show ?thesis by (simp add: get_miss) (simp add: enqueue_def)
      qed
    qed
    with Get st show ?thesis by auto
  next
    case (GetSync k)
    with st show ?thesis by (auto simp: getSync_def touch_frame split: option.splits)
  next
    case (Has k)
    with st show ?thesis by auto
  next
    case (Invalidate k)
    with st show ?thesis by (auto simp: invalidate_fields)
  next
    case Clear
    with st show ?thesis by (auto simp: clear_def)
  next
    case (DecodeDone p r)
    with st show ?thesis by (auto dest: decode_done_fields)
  next
    case (Deliver p)
    have "map item (loads (deliver s p)) = map item (loads s)"
      by (cases "find (\<lambda>l. promise (item l) = p \<and> phase l \<noteq> Decoding \<and> phase l \<noteq> Delivered) (loads s)")
         (simp_all add: deliver_found deliver_idle items_set_phase)
    with Deliver st show ?thesis by auto
  next
    case (Finally p)
    with nf show ?thesis by blast
  qed
qed

lemma decode_error_found:
  assumes w: "wf s" and l: "l \<in> set (loads s)" and ph: "phase l = Decoding"
  shows "decode_done s (promise (item l)) DecodeError = Some (set_phase s (promise (item l)) (Settled None))"
proof -
  let ?P = "\<lambda>l'. promise (item l') = promise (item l) \<and> phase l' = Decoding"
  from l ph have "find ?P (loads s) \<noteq> None" by (auto simp: find_None_iff)
  then obtain l' where "find ?P (loads s) = Some l'" by auto
  then show ?thesis by (simp add: decode_done_def)
qed

lemma deliver_settled:
  assumes w: "wf s" and l: "l \<in> set (loads s)" and ph: "phase l = Settled r"
  shows "deliver s (promise (item l)) =
           set_phase (s\<lparr>promises := settle (promises s) (promise (item l)) (outcome l),
                        pending := map_delete (pending s) (volumeUuid (item l))\<rparr>)
                     (promise (item l)) Delivered"
proof -
  let ?P = "\<lambda>l'. promise (item l') = promise (item l) \<and> phase l' \<noteq> Decoding \<and> phase l' \<noteq> Delivered"
  from w have dist: "distinct (req_ids s)" by (simp add: wf_def wf0_def)
  from l ph have "find ?P (loads s) \<noteq> None" by (auto simp: find_None_iff)
  then obtain l' where f: "find ?P (loads s) = Some l'" by auto
  from find_SomeD [OF f] have "l' \<in> set (loads s)" "promise (item l') = promise (item l)" by simp_all
  with same_id_same_load [OF dist this(1) l] have "l' = l" by simp
  with deliver_found [OF f] show ?thesis by simp
qed

lemma decode_done_settles:
  assumes w: "wf s" and l: "l \<in> set (loads s)" and ph: "phase l = Decoding"
    and d: "decode_done s (promise (item l)) r = Some s1"
  shows "l\<lparr>phase := Settled (case r of DecodeError \<Rightarrow> None
                              | Bitmap w h \<Rightarrow> Some \<lparr> bitmap = promise (item l), width = w, height = h,
                                                     sizeB = w * h * 4 \<rparr>)\<rparr> \<in> set (loads s1)"
proof -
  let ?p = "promise (item l)"
  let ?P = "\<lambda>l'. promise (item l') = ?p \<and> phase l' = Decoding"
  from l ph have "find ?P (loads s) \<noteq> None" by (auto simp: find_None_iff)
  then obtain l' where f: "find ?P (loads s) = Some l'" by auto
  show ?thesis
  proof (cases r)
    case DecodeError
    with d f have "s1 = set_phase s ?p (Settled None)" by (simp add: decode_done_def)
    with l DecodeError show ?thesis by (force simp: set_phase_fields)
  next
    case (Bitmap w h)
    with d f obtain s' e where ld: "load s (volumeUuid (item l')) ?p w h = Some (s', e)"
      and s1: "s1 = set_phase s' ?p (Settled (Some e))"
      by (auto simp: decode_done_def split: option.splits)
    from ld have e: "e = \<lparr> bitmap = ?p, width = w, height = h, sizeB = w * h * 4 \<rparr>"
      by (auto simp: load_def Let_def split: option.splits)
    from load_frame [OF ld] have "loads s' = loads s" by simp
    with l s1 e Bitmap show ?thesis by (force simp: set_phase_fields)
  qed
qed

lemma decode_deliver:
  assumes w: "wf s" and l: "l \<in> set (loads s)" and ph: "phase l = Decoding"
    and d: "decode_done s (promise (item l)) r = Some s1"
  shows "promises (deliver s1 (promise (item l))) =
           (promises s)[promise (item l) :=
              (case r of DecodeError \<Rightarrow> Rejected
               | Bitmap w h \<Rightarrow> Fulfilled \<lparr> bitmap = promise (item l), width = w, height = h,
                                           sizeB = w * h * 4 \<rparr>)]"
    and "pending (deliver s1 (promise (item l))) = map_delete (pending s) (volumeUuid (item l))"
    and "l\<lparr>phase := Delivered\<rparr> \<in> set (loads (deliver s1 (promise (item l))))"
    and "map item (loads (deliver s1 (promise (item l)))) = map item (loads s)"
    and "queue (deliver s1 (promise (item l))) = queue s"
    and "activeLoads (deliver s1 (promise (item l))) = activeLoads s"
proof -
  let ?p = "promise (item l)"
  let ?x = "case r of DecodeError \<Rightarrow> None
            | Bitmap w h \<Rightarrow> Some \<lparr> bitmap = ?p, width = w, height = h, sizeB = w * h * 4 \<rparr>"
  let ?l1 = "l\<lparr>phase := Settled ?x\<rparr>"
  from wf_decode_done [OF w d] have w1: "wf s1" .
  from decode_done_settles [OF w l ph d] have l1: "?l1 \<in> set (loads s1)" .
  from decode_done_fields [OF d] have f: "queue s1 = queue s" "pending s1 = pending s"
    "promises s1 = promises s" "activeLoads s1 = activeLoads s"
    "map item (loads s1) = map item (loads s)" by simp_all
  from w l ph have p: "?p < length (promises s)" "promises s ! ?p = Pending"
    by (auto simp: wf_def wf0_def req_ids_def)
  have dl: "deliver s1 ?p =
              set_phase (s1\<lparr>promises := settle (promises s1) ?p (outcome ?l1),
                           pending := map_delete (pending s1) (volumeUuid (item l))\<rparr>) ?p Delivered"
    using deliver_settled [OF w1 l1, of ?x] by simp
  have oc: "outcome ?l1 = (case r of DecodeError \<Rightarrow> Rejected
               | Bitmap w h \<Rightarrow> Fulfilled \<lparr> bitmap = ?p, width = w, height = h, sizeB = w * h * 4 \<rparr>)"
    by (cases r) (simp_all add: outcome_def)
  show "promises (deliver s1 ?p) = (promises s)[?p :=
              (case r of DecodeError \<Rightarrow> Rejected
               | Bitmap w h \<Rightarrow> Fulfilled \<lparr> bitmap = ?p, width = w, height = h, sizeB = w * h * 4 \<rparr>)]"
    using p by (simp add: dl set_phase_fields f oc settle_def)
  show "pending (deliver s1 ?p) = map_delete (pending s) (volumeUuid (item l))"
    by (simp add: dl set_phase_fields f)
  show "l\<lparr>phase := Delivered\<rparr> \<in> set (loads (deliver s1 ?p))"
  proof -
    let ?f = "\<lambda>l'. if promise (item l') = ?p then l'\<lparr>phase := Delivered\<rparr> else l'"
    from l1 have "?f ?l1 \<in> ?f ` set (loads s1)" by (rule imageI)
    then show ?thesis by (simp add: dl set_phase_fields)
  qed
  show "map item (loads (deliver s1 ?p)) = map item (loads s)"
    by (simp add: dl items_set_phase f)
  show "queue (deliver s1 ?p) = queue s" by (simp add: dl set_phase_fields f)
  show "activeLoads (deliver s1 ?p) = activeLoads s" by (simp add: dl set_phase_fields f)
qed

lemma finally_delivered:
  assumes w: "wf s" and d: "d \<in> set (loads s)" and ph: "phase d = Delivered"
  shows "load_finally s (promise (item d)) =
           processQueue (s\<lparr>loads := filter (\<lambda>l. promise (item l) \<noteq> promise (item d)) (loads s),
                           activeLoads := activeLoads s - 1\<rparr>)"
proof -
  let ?P = "\<lambda>l'. promise (item l') = promise (item d) \<and> phase l' = Delivered"
  from d ph have "find ?P (loads s) \<noteq> None" by (auto simp: find_None_iff)
  then obtain l' where f: "find ?P (loads s) = Some l'" by auto
  from load_finally_found [OF f] show ?thesis .
qed

lemma finally_promotes:
  assumes w: "wf s" and d: "d \<in> set (loads s)" and ph: "phase d = Delivered"
  shows "loads (load_finally s (promise (item d))) =
           filter (\<lambda>l. promise (item l) \<noteq> promise (item d)) (loads s)
           @ (if queue s = [] then [] else [start_load (last (queue s))])"
    and "queue (load_finally s (promise (item d))) = butlast (queue s)"
    and "activeLoads (load_finally s (promise (item d))) =
           (if queue s = [] then activeLoads s - 1 else activeLoads s)"
    and "length (filter (\<lambda>l. promise (item l) \<noteq> promise (item d)) (loads s)) = length (loads s) - 1"
proof -
  let ?p = "promise (item d)"
  let ?s' = "s\<lparr>loads := filter (\<lambda>l. promise (item l) \<noteq> ?p) (loads s), activeLoads := activeLoads s - 1\<rparr>"
  from w have al: "activeLoads s = int (length (loads s))" "activeLoads s \<le> maxConcurrent s"
    "queue s \<noteq> [] \<longrightarrow> activeLoads s = maxConcurrent s"
    by (auto simp: wf_def wf0_def)
  have fs: "free_slots ?s' = (if queue s = [] then 0 else 1)"
    using al by (cases "queue s") (auto simp: free_slots_def)
  have lf: "load_finally s ?p = processQueue ?s'" by (rule finally_delivered [OF w d ph])
  show "loads (load_finally s ?p) =
           filter (\<lambda>l. promise (item l) \<noteq> ?p) (loads s)
           @ (if queue s = [] then [] else [start_load (last (queue s))])"
  proof (cases "queue s = []")
    case True
    then show ?thesis by (simp add: lf processQueue_fields fs)
  next
    case False
    then obtain ys y where "queue s = ys @ [y]" by (cases "queue s" rule: rev_cases) auto
    then have "drop (length (queue s) - 1) (queue s) = [last (queue s)]" by simp
    with False show ?thesis by (simp add: lf processQueue_fields fs)
  qed
  show "queue (load_finally s ?p) = butlast (queue s)"
    by (simp add: lf processQueue_fields fs butlast_conv_take)
  show "activeLoads (load_finally s ?p) = (if queue s = [] then activeLoads s - 1 else activeLoads s)"
    by (simp add: lf processQueue_fields fs)
  from w have dist: "distinct (req_ids s)" by (simp add: wf_def wf0_def)
  then have "distinct (map (\<lambda>l. promise (item l)) (loads s))" by (simp add: req_ids_def)
  with d show "length (filter (\<lambda>l. promise (item l) \<noteq> ?p) (loads s)) = length (loads s) - 1"
    by (rule length_filter_other [where f = "\<lambda>l. promise (item l)", rotated])
qed


lemma settlement_chain:
  assumes w: "wf s" and l: "l \<in> set (loads s)" and ph: "phase l = Decoding"
    and r: "run s [DecodeDone (promise (item l)) r, Deliver (promise (item l)),
                   Finally (promise (item l))] = Some t"
  shows "map item (loads t) =
           filter (\<lambda>q. promise q \<noteq> promise (item l)) (map item (loads s))
           @ (if queue s = [] then [] else [last (queue s)])"
    and "queue t = butlast (queue s)"
    and "activeLoads t = (if queue s = [] then activeLoads s - 1 else activeLoads s)"
    and "promises t =
           (promises s)[promise (item l) :=
              (case r of DecodeError \<Rightarrow> Rejected
               | Bitmap w h \<Rightarrow> Fulfilled \<lparr> bitmap = promise (item l), width = w, height = h,
                                           sizeB = w * h * 4 \<rparr>)]"
proof -
  let ?p = "promise (item l)"
  from r obtain s1 where d: "decode_done s ?p r = Some s1"
    and t: "t = load_finally (deliver s1 ?p) ?p"
    by (auto split: option.splits)
  let ?s2 = "deliver s1 ?p"
  let ?d = "l\<lparr>phase := Delivered\<rparr>"
  from wf_deliver [OF wf_decode_done [OF w d]] have w2: "wf ?s2" .
  note dd = decode_deliver [OF w l ph d]
  have d2: "?d \<in> set (loads ?s2)" by (rule dd(3))
  have phd: "phase ?d = Delivered" by simp
  have pd: "promise (item ?d) = ?p" by simp
  note fp = finally_promotes [OF w2 d2 phd, unfolded pd]
  have "map item (loads t) =
          map item (filter (\<lambda>l'. promise (item l') \<noteq> ?p) (loads ?s2))
          @ (if queue s = [] then [] else [last (queue s)])"
    unfolding t fp(1) by (simp add: dd(5) start_load_def)
  also have "map item (filter (\<lambda>l'. promise (item l') \<noteq> ?p) (loads ?s2)) =
               filter (\<lambda>q. promise q \<noteq> ?p) (map item (loads ?s2))"
    by (simp add: filter_map comp_def)
  finally show "map item (loads t) =
           filter (\<lambda>q. promise q \<noteq> ?p) (map item (loads s))
           @ (if queue s = [] then [] else [last (queue s)])"
    by (simp add: dd(4))
  show "queue t = butlast (queue s)" unfolding t fp(2) by (simp add: dd(5))
  show "activeLoads t = (if queue s = [] then activeLoads s - 1 else activeLoads s)"
    unfolding t fp(3) by (simp add: dd(5,6))
  show "promises t =
           (promises s)[?p :=
              (case r of DecodeError \<Rightarrow> Rejected
               | Bitmap w h \<Rightarrow> Fulfilled \<lparr> bitmap = ?p, width = w, height = h, sizeB = w * h * 4 \<rparr>)]"
    unfolding t by (simp add: load_finally_fields dd(1))
qed

lemma settlement_chain_error:
  assumes w: "wf s" and l: "l \<in> set (loads s)" and ph: "phase l = Decoding"
  shows "run s [DecodeDone (promise (item l)) DecodeError, Deliver (promise (item l)),
                Finally (promise (item l))] \<noteq> None"
  by (simp add: decode_error_found [OF w l ph])

text \<open>
  Claim C5. In every state that a sequence of events reaches from the initial state, the
  ceiling is 6, \<open>activeLoads\<close> is the number of calls of \<open>load\<close> in progress, that number
  is at most 6, so at most 6 decodes are active, and requests wait in the queue only while
  it is exactly 6. An event that
  takes a request out of the queue and starts its load is the \<open>finally\<close> callback of a load
  whose promise has been settled; it removes that load, decrements \<open>activeLoads\<close> and drains
  the queue again. Conversely, the \<open>finally\<close> callback of a load whose promise has been
  settled always does this: the load leaves the loads in progress, and either no request
  waits and \<open>activeLoads\<close> is one less, or the most recent waiting request leaves the queue,
  its load starts and \<open>activeLoads\<close> is again 6. A load that is decoding can always settle
  by an error; when it settles, by a bitmap or by an error, its promise is fulfilled or
  rejected and the same happens to the count and the queue. After ten requests for
  different keys, six loads are in progress and four requests wait; when the load of the
  first is fulfilled and the load of the fourth is rejected, two of the four have started
  and six loads are in progress again.
\<close>

theorem concurrency_ceiling:
  assumes "run init es = Some s"
  shows "maxConcurrent s = 6
       \<and> activeLoads s = int (length (loads s))
       \<and> length (loads s) \<le> 6
       \<and> length (filter (\<lambda>l. phase l = Decoding) (loads s)) \<le> 6
       \<and> (queue s \<noteq> [] \<longrightarrow> length (loads s) = 6)
       \<and> (step s e = Some s' \<and> q \<in> set (queue s) \<and> l \<in> set (loads s') \<and> item l = q \<longrightarrow>
            (\<exists>p d. e = Finally p \<and> d \<in> set (loads s) \<and> promise (item d) = p \<and> phase d = Delivered
                 \<and> s' = processQueue (s\<lparr>loads := filter (\<lambda>l. promise (item l) \<noteq> p) (loads s),
                                          activeLoads := activeLoads s - 1\<rparr>)))
       \<and> map_option active_keys (run init ten_requests) = Some [''k0'', ''k1'', ''k2'', ''k3'', ''k4'', ''k5'']
       \<and> map_option queued_keys (run init ten_requests) = Some [''k6'', ''k7'', ''k8'', ''k9'']
       \<and> (d \<in> set (loads s) \<and> phase d = Delivered \<longrightarrow>
            step s (Finally (promise (item d))) =
              Some (processQueue (s\<lparr>loads := filter (\<lambda>l. promise (item l) \<noteq> promise (item d)) (loads s),
                                    activeLoads := activeLoads s - 1\<rparr>))
          \<and> loads (load_finally s (promise (item d))) =
              filter (\<lambda>l. promise (item l) \<noteq> promise (item d)) (loads s)
              @ (if queue s = [] then [] else [start_load (last (queue s))])
          \<and> length (filter (\<lambda>l. promise (item l) \<noteq> promise (item d)) (loads s)) = length (loads s) - 1
          \<and> queue (load_finally s (promise (item d))) = butlast (queue s)
          \<and> activeLoads (load_finally s (promise (item d))) =
              (if queue s = [] then activeLoads s - 1 else 6))
       \<and> (a \<in> set (loads s) \<and> phase a = Decoding \<longrightarrow>
            run s [DecodeDone (promise (item a)) DecodeError, Deliver (promise (item a)),
                   Finally (promise (item a))] \<noteq> None
          \<and> (run s [DecodeDone (promise (item a)) r, Deliver (promise (item a)),
                     Finally (promise (item a))] = Some t \<longrightarrow>
                map item (loads t) =
                  filter (\<lambda>q. promise q \<noteq> promise (item a)) (map item (loads s))
                  @ (if queue s = [] then [] else [last (queue s)])
              \<and> queue t = butlast (queue s)
              \<and> activeLoads t = (if queue s = [] then activeLoads s - 1 else 6)
              \<and> future_state s (Follows (promise (item a))) = Pending
              \<and> future_state t (Follows (promise (item a))) =
                  (case r of DecodeError \<Rightarrow> Rejected
                   | Bitmap w h \<Rightarrow> Fulfilled \<lparr> bitmap = promise (item a), width = w, height = h,
                                               sizeB = w * h * 4 \<rparr>)))
       \<and> map_option active_keys
            (run init (ten_requests @ settle_ok 0 @ [DecodeDone 3 DecodeError, Deliver 3, Finally 3]))
           = Some [''k1'', ''k2'', ''k4'', ''k5'', ''k9'', ''k8'']
       \<and> map_option queued_keys
            (run init (ten_requests @ settle_ok 0 @ [DecodeDone 3 DecodeError, Deliver 3, Finally 3]))
           = Some [''k6'', ''k7'']"
proof -
  from wf_run [OF wf_init assms] have w: "wf s" .
  from consts_run [OF assms] have mc: "maxConcurrent s = 6" by (simp add: init_def)
  from w mc have a: "activeLoads s = int (length (loads s))" "length (loads s) \<le> 6"
    "queue s \<noteq> [] \<longrightarrow> length (loads s) = 6"
    by (auto simp: wf_def wf0_def)
  from a have full: "queue s \<noteq> [] \<longrightarrow> activeLoads s = 6" by simp
  have a': "length (filter (\<lambda>l. phase l = Decoding) (loads s)) \<le> 6"
    by (rule order_trans [OF length_filter_le a(2)])
  have b: "step s e = Some s' \<and> q \<in> set (queue s) \<and> l \<in> set (loads s') \<and> item l = q \<longrightarrow>
            (\<exists>p d. e = Finally p \<and> d \<in> set (loads s) \<and> promise (item d) = p \<and> phase d = Delivered
                 \<and> s' = processQueue (s\<lparr>loads := filter (\<lambda>l. promise (item l) \<noteq> p) (loads s),
                                          activeLoads := activeLoads s - 1\<rparr>))"
  proof
    assume h: "step s e = Some s' \<and> q \<in> set (queue s) \<and> l \<in> set (loads s') \<and> item l = q"
    then have st: "step s e = Some s'" and q: "q \<in> set (queue s)" and l: "l \<in> set (loads s')"
      and il: "item l = q" by simp_all
    from w have dist: "distinct (req_ids s)" by (simp add: wf_def wf0_def)
    have notin: "q \<notin> set (map item (loads s))"
    proof
      assume "q \<in> set (map item (loads s))"
      then obtain d where "d \<in> set (loads s)" "item d = q" by auto
      with queued_not_loading [OF dist q this(1)] show False by simp
    qed
    from l il have inq: "q \<in> set (map item (loads s'))" by force
    have "\<exists>p. e = Finally p"
    proof (rule ccontr)
      assume "\<not> (\<exists>p. e = Finally p)"
      then have "\<And>p. e \<noteq> Finally p" by blast
      moreover from q have "queue s \<noteq> []" by auto
      ultimately have "map item (loads s') = map item (loads s)"
        using full_no_start [OF w _ st] by blast
      with inq notin show False by simp
    qed
    then obtain p where e: "e = Finally p" ..
    show "\<exists>p d. e = Finally p \<and> d \<in> set (loads s) \<and> promise (item d) = p \<and> phase d = Delivered
                 \<and> s' = processQueue (s\<lparr>loads := filter (\<lambda>l. promise (item l) \<noteq> p) (loads s),
                                          activeLoads := activeLoads s - 1\<rparr>)"
    proof (cases "find (\<lambda>l. promise (item l) = p \<and> phase l = Delivered) (loads s)")
      case None
      with st e have "s' = s" by (simp add: load_finally_idle)
      with inq notin show ?thesis by simp
    next
      case (Some d)
      from find_SomeD [OF Some] st e load_finally_found [OF Some] show ?thesis by auto
    qed
  qed
  have c: "map_option active_keys (run init ten_requests) = Some [''k0'', ''k1'', ''k2'', ''k3'', ''k4'', ''k5'']"
    by (simp add: ten_requests_def eval_ops active_keys_def)
  have d: "map_option queued_keys (run init ten_requests) = Some [''k6'', ''k7'', ''k8'', ''k9'']"
    by (simp add: ten_requests_def eval_ops queued_keys_def)
  have f: "d \<in> set (loads s) \<and> phase d = Delivered \<longrightarrow>
            step s (Finally (promise (item d))) =
              Some (processQueue (s\<lparr>loads := filter (\<lambda>l. promise (item l) \<noteq> promise (item d)) (loads s),
                                    activeLoads := activeLoads s - 1\<rparr>))
          \<and> loads (load_finally s (promise (item d))) =
              filter (\<lambda>l. promise (item l) \<noteq> promise (item d)) (loads s)
              @ (if queue s = [] then [] else [start_load (last (queue s))])
          \<and> length (filter (\<lambda>l. promise (item l) \<noteq> promise (item d)) (loads s)) = length (loads s) - 1
          \<and> queue (load_finally s (promise (item d))) = butlast (queue s)
          \<and> activeLoads (load_finally s (promise (item d))) =
              (if queue s = [] then activeLoads s - 1 else 6)"
  proof
    assume "d \<in> set (loads s) \<and> phase d = Delivered"
    then have d: "d \<in> set (loads s)" and ph: "phase d = Delivered" by simp_all
    from finally_delivered [OF w d ph] finally_promotes [OF w d ph] full
    show "step s (Finally (promise (item d))) =
              Some (processQueue (s\<lparr>loads := filter (\<lambda>l. promise (item l) \<noteq> promise (item d)) (loads s),
                                    activeLoads := activeLoads s - 1\<rparr>))
          \<and> loads (load_finally s (promise (item d))) =
              filter (\<lambda>l. promise (item l) \<noteq> promise (item d)) (loads s)
              @ (if queue s = [] then [] else [start_load (last (queue s))])
          \<and> length (filter (\<lambda>l. promise (item l) \<noteq> promise (item d)) (loads s)) = length (loads s) - 1
          \<and> queue (load_finally s (promise (item d))) = butlast (queue s)
          \<and> activeLoads (load_finally s (promise (item d))) =
              (if queue s = [] then activeLoads s - 1 else 6)"
      by simp
  qed
  have g: "a \<in> set (loads s) \<and> phase a = Decoding \<longrightarrow>
            run s [DecodeDone (promise (item a)) DecodeError, Deliver (promise (item a)),
                   Finally (promise (item a))] \<noteq> None
          \<and> (run s [DecodeDone (promise (item a)) r, Deliver (promise (item a)),
                     Finally (promise (item a))] = Some t \<longrightarrow>
                map item (loads t) =
                  filter (\<lambda>q. promise q \<noteq> promise (item a)) (map item (loads s))
                  @ (if queue s = [] then [] else [last (queue s)])
              \<and> queue t = butlast (queue s)
              \<and> activeLoads t = (if queue s = [] then activeLoads s - 1 else 6)
              \<and> future_state s (Follows (promise (item a))) = Pending
              \<and> future_state t (Follows (promise (item a))) =
                  (case r of DecodeError \<Rightarrow> Rejected
                   | Bitmap w h \<Rightarrow> Fulfilled \<lparr> bitmap = promise (item a), width = w, height = h,
                                               sizeB = w * h * 4 \<rparr>))"
  proof
    assume "a \<in> set (loads s) \<and> phase a = Decoding"
    then have a: "a \<in> set (loads s)" and ph: "phase a = Decoding" by simp_all
    from w a ph have p: "promise (item a) < length (promises s)"
      "promises s ! promise (item a) = Pending"
      by (auto simp: wf_def wf0_def req_ids_def)
    have g1: "run s [DecodeDone (promise (item a)) DecodeError, Deliver (promise (item a)),
                   Finally (promise (item a))] \<noteq> None"
      by (rule settlement_chain_error [OF w a ph])
    have g2: "run s [DecodeDone (promise (item a)) r, Deliver (promise (item a)),
                     Finally (promise (item a))] = Some t \<longrightarrow>
                map item (loads t) =
                  filter (\<lambda>q. promise q \<noteq> promise (item a)) (map item (loads s))
                  @ (if queue s = [] then [] else [last (queue s)])
              \<and> queue t = butlast (queue s)
              \<and> activeLoads t = (if queue s = [] then activeLoads s - 1 else 6)
              \<and> future_state s (Follows (promise (item a))) = Pending
              \<and> future_state t (Follows (promise (item a))) =
                  (case r of DecodeError \<Rightarrow> Rejected
                   | Bitmap w h \<Rightarrow> Fulfilled \<lparr> bitmap = promise (item a), width = w, height = h,
                                               sizeB = w * h * 4 \<rparr>)"
    proof
      assume r: "run s [DecodeDone (promise (item a)) r, Deliver (promise (item a)),
                     Finally (promise (item a))] = Some t"
      from settlement_chain [OF w a ph r] full p
      show "map item (loads t) =
                  filter (\<lambda>q. promise q \<noteq> promise (item a)) (map item (loads s))
                  @ (if queue s = [] then [] else [last (queue s)])
              \<and> queue t = butlast (queue s)
              \<and> activeLoads t = (if queue s = [] then activeLoads s - 1 else 6)
              \<and> future_state s (Follows (promise (item a))) = Pending
              \<and> future_state t (Follows (promise (item a))) =
                  (case r of DecodeError \<Rightarrow> Rejected
                   | Bitmap w h \<Rightarrow> Fulfilled \<lparr> bitmap = promise (item a), width = w, height = h,
                                               sizeB = w * h * 4 \<rparr>)"
        by simp
    qed
    from g1 g2 show "run s [DecodeDone (promise (item a)) DecodeError, Deliver (promise (item a)),
                   Finally (promise (item a))] \<noteq> None
          \<and> (run s [DecodeDone (promise (item a)) r, Deliver (promise (item a)),
                     Finally (promise (item a))] = Some t \<longrightarrow>
                map item (loads t) =
                  filter (\<lambda>q. promise q \<noteq> promise (item a)) (map item (loads s))
                  @ (if queue s = [] then [] else [last (queue s)])
              \<and> queue t = butlast (queue s)
              \<and> activeLoads t = (if queue s = [] then activeLoads s - 1 else 6)
              \<and> future_state s (Follows (promise (item a))) = Pending
              \<and> future_state t (Follows (promise (item a))) =
                  (case r of DecodeError \<Rightarrow> Rejected
                   | Bitmap w h \<Rightarrow> Fulfilled \<lparr> bitmap = promise (item a), width = w, height = h,
                                               sizeB = w * h * 4 \<rparr>))"
      by (rule conjI)
  qed
  have h1: "map_option active_keys
            (run init (ten_requests @ settle_ok 0 @ [DecodeDone 3 DecodeError, Deliver 3, Finally 3]))
           = Some [''k1'', ''k2'', ''k4'', ''k5'', ''k9'', ''k8'']"
    by (simp add: ten_requests_def settle_ok_def eval_ops active_keys_def)
  have h2: "map_option queued_keys
            (run init (ten_requests @ settle_ok 0 @ [DecodeDone 3 DecodeError, Deliver 3, Finally 3]))
           = Some [''k6'', ''k7'']"
    by (simp add: ten_requests_def settle_ok_def eval_ops queued_keys_def)
  show ?thesis
    apply (intro conjI)
    apply (rule mc)
    apply (rule a(1))
    apply (rule a(2))
    apply (rule a')
    apply (rule a(3))
    apply (rule b)
    apply (rule c)
    apply (rule d)
    apply (rule f)
    apply (rule g)
    apply (rule h1)
    apply (rule h2)
    done
qed

theorem concurrency_ceiling_witness:
  "case run init (ten_requests @ [DecodeDone 0 (Bitmap 10 10), Deliver 0]) of
     None \<Rightarrow> False
   | Some s \<Rightarrow>
       maxConcurrent s = 6 \<and> activeLoads s = 6 \<and> length (loads s) = 6
     \<and> queued_keys s = [''k6'', ''k7'', ''k8'', ''k9'']
     \<and> start_load request_k9 \<notin> set (loads s)
     \<and> \<lparr> item = \<lparr> volumeUuid = ''k0'', file = 0, promise = 0 \<rparr>, phase = Delivered \<rparr> \<in> set (loads s)
     \<and> (case step s (Finally 0) of
          None \<Rightarrow> False
        | Some s' \<Rightarrow>
            request_k9 \<in> set (queue s) \<and> start_load request_k9 \<in> set (loads s')
          \<and> active_keys s' = [''k1'', ''k2'', ''k3'', ''k4'', ''k5'', ''k9'']
          \<and> queued_keys s' = [''k6'', ''k7'', ''k8'']
          \<and> activeLoads s' = 6)
     \<and> start_load \<lparr> volumeUuid = ''k1'', file = 1, promise = 1 \<rparr> \<in> set (loads s)
     \<and> (case run s [DecodeDone 1 DecodeError, Deliver 1, Finally 1] of
          None \<Rightarrow> False
        | Some t \<Rightarrow>
            active_keys t = [''k0'', ''k2'', ''k3'', ''k4'', ''k5'', ''k9'']
          \<and> queued_keys t = [''k6'', ''k7'', ''k8'']
          \<and> activeLoads t = 6
          \<and> future_state s (Follows 1) = Pending
          \<and> future_state t (Follows 1) = Rejected)"
proof -
  let ?es = "ten_requests @ [DecodeDone 0 (Bitmap 10 10), Deliver 0]"
  let ?s = "the (run init ?es)"
  let ?d = "\<lparr> item = \<lparr> volumeUuid = ''k0'', file = 0, promise = 0 \<rparr>, phase = Delivered \<rparr>"
  let ?a = "start_load \<lparr> volumeUuid = ''k1'', file = 1, promise = 1 \<rparr>"
  let ?t = "the (run ?s [DecodeDone 1 DecodeError, Deliver 1, Finally 1])"
  have h: "run init ?es = Some ?s" by (simp add: ten_requests_def eval_ops)
  from concurrency_ceiling [OF h, where e = "Finally 0" and s' = "load_finally ?s 0"
      and q = request_k9 and l = "start_load request_k9" and d = ?d and a = ?a
      and r = DecodeError and t = ?t]
  show ?thesis
    by (simp add: ten_requests_def request_k9_def start_load_def eval_ops active_keys_def
        queued_keys_def)
qed

section \<open>Order of admission\<close>

text \<open>
  Claim C4. One call of \<open>processQueue\<close> starts \<open>free_slots\<close> requests: the most recently
  queued ones, the most recent first, and leaves the older ones queued in their order.
  When the queue is non-empty and \<open>activeLoads\<close> is below the ceiling, at least one request
  is started and the first one started is the last one queued. With ceiling 1 and requests
  \<open>A\<close>, \<open>B\<close>, \<open>C\<close>: \<open>A\<close> takes the slot, \<open>B\<close> and \<open>C\<close> wait; once \<open>A\<close> settles, \<open>C\<close> is
  loading and \<open>B\<close> still waits; once \<open>C\<close> settles, \<open>B\<close> is loading. With the ceiling 6 of
  the class and ten requests, the request started when the first load settles is the tenth.
\<close>

theorem processQueue_lifo:
  "loads (processQueue s) = loads s @ map start_load (take (free_slots s) (rev (queue s)))
   \<and> queue (processQueue s) = take (length (queue s) - free_slots s) (queue s)
   \<and> activeLoads (processQueue s) = activeLoads s + int (free_slots s)
   \<and> (queue s \<noteq> [] \<and> activeLoads s < maxConcurrent s \<longrightarrow>
        0 < free_slots s \<and> loads (processQueue s) ! length (loads s) = start_load (last (queue s)))
   \<and> map_option active_keys (run ceiling_one abc_requests) = Some [''A'']
   \<and> map_option queued_keys (run ceiling_one abc_requests) = Some [''B'', ''C'']
   \<and> map_option active_keys (run ceiling_one (abc_requests @ settle_ok 0)) = Some [''C'']
   \<and> map_option queued_keys (run ceiling_one (abc_requests @ settle_ok 0)) = Some [''B'']
   \<and> map_option active_keys (run ceiling_one (abc_requests @ settle_ok 0 @ settle_ok 2)) = Some [''B'']
   \<and> map_option active_keys (run init (ten_requests @ settle_ok 0))
        = Some [''k1'', ''k2'', ''k3'', ''k4'', ''k5'', ''k9'']
   \<and> map_option queued_keys (run init (ten_requests @ settle_ok 0)) = Some [''k6'', ''k7'', ''k8'']"
proof -
  have 1: "loads (processQueue s) = loads s @ map start_load (take (free_slots s) (rev (queue s)))"
    by (simp add: processQueue_fields take_rev)
  have 2: "queue s \<noteq> [] \<and> activeLoads s < maxConcurrent s \<longrightarrow>
        0 < free_slots s \<and> loads (processQueue s) ! length (loads s) = start_load (last (queue s))"
  proof
    assume h: "queue s \<noteq> [] \<and> activeLoads s < maxConcurrent s"
    then have pos: "0 < free_slots s" by (simp add: free_slots_def)
    then obtain n where n: "free_slots s = Suc n" by (cases "free_slots s") auto
    from h obtain ys y where q: "queue s = ys @ [y]" by (cases "queue s" rule: rev_cases) auto
    then have "take (free_slots s) (rev (queue s)) = last (queue s) # take n (rev ys)"
      by (simp add: n)
    with 1 pos show "0 < free_slots s \<and> loads (processQueue s) ! length (loads s) = start_load (last (queue s))"
      by (simp add: nth_append)
  qed
  have 3: "map_option active_keys (run ceiling_one abc_requests) = Some [''A'']"
    "map_option queued_keys (run ceiling_one abc_requests) = Some [''B'', ''C'']"
    by (simp_all add: ceiling_one_def abc_requests_def eval_ops active_keys_def queued_keys_def)
  have 4: "map_option active_keys (run ceiling_one (abc_requests @ settle_ok 0)) = Some [''C'']"
    "map_option queued_keys (run ceiling_one (abc_requests @ settle_ok 0)) = Some [''B'']"
    by (simp_all add: ceiling_one_def abc_requests_def settle_ok_def eval_ops active_keys_def queued_keys_def)
  have 5: "map_option active_keys (run ceiling_one (abc_requests @ settle_ok 0 @ settle_ok 2)) = Some [''B'']"
    by (simp add: ceiling_one_def abc_requests_def settle_ok_def eval_ops active_keys_def)
  have 6: "map_option active_keys (run init (ten_requests @ settle_ok 0))
        = Some [''k1'', ''k2'', ''k3'', ''k4'', ''k5'', ''k9'']"
    "map_option queued_keys (run init (ten_requests @ settle_ok 0)) = Some [''k6'', ''k7'', ''k8'']"
    by (simp_all add: ten_requests_def settle_ok_def eval_ops active_keys_def queued_keys_def)
  from 1 2 3 4 5 6 show ?thesis by (simp add: processQueue_fields)
qed

theorem processQueue_lifo_witness:
  "loads (processQueue two_cached) = [start_load \<lparr> volumeUuid = ''c'', file = 7, promise = 2 \<rparr>]
   \<and> queue (processQueue two_cached) = []
   \<and> activeLoads (processQueue two_cached) = 1"
  using processQueue_lifo [of two_cached]
  by (simp add: two_cached_def init_def free_slots_def)

section \<open>Invalidation of a queued request\<close>

lemma set_req_ids_processQueue: "set (req_ids (processQueue s)) = set (req_ids s)"
proof -
  let ?m = "length (queue s) - free_slots s"
  have "req_ids (processQueue s) =
      map promise (take ?m (queue s)) @ map (\<lambda>l. promise (item l)) (loads s) @ map promise (rev (drop ?m (queue s)))"
    by (simp add: req_ids_def processQueue_fields start_load_def comp_def)
  then show ?thesis
    using set_take_drop [of ?m "queue s"] by (auto simp: req_ids_def)
qed

lemma orphan_cong:
  "promises t = promises s \<Longrightarrow> set (req_ids t) \<subseteq> set (req_ids s) \<Longrightarrow> orphan s p \<Longrightarrow> orphan t p"
  by (auto simp: orphan_def)

lemma orphan_processQueue: "orphan s p \<Longrightarrow> orphan (processQueue s) p"
  by (rule orphan_cong [of _ s]) (simp_all add: processQueue_fields set_req_ids_processQueue)

lemma orphan_enqueue: "orphan s p \<Longrightarrow> orphan (enqueue s k f) p"
  by (auto simp: orphan_def enqueue_def req_ids_def nth_append)

lemma orphan_get: "orphan s p \<Longrightarrow> orphan (snd (get s k f)) p"
proof (cases "map_get (cache s) k")
  case (Some e)
  assume "orphan s p"
  then have "orphan (touch s k) p"
    by (rule orphan_cong [rotated 2]) (simp_all add: touch_frame req_ids_def)
  with Some show ?thesis by (simp add: get_hit)
next
  case None
  assume o: "orphan s p"
  show ?thesis
  proof (cases "map_get (pending s) k")
    case (Some p')
    with None o show ?thesis by (simp add: get_joined)
  next
    case N2: None
    with None o show ?thesis by (simp add: get_miss orphan_processQueue orphan_enqueue)
  qed
qed

lemma orphan_step:
  assumes o: "orphan s p" and st: "step s e = Some s'"
  shows "orphan s' p"
proof (cases e)
  case (Get k f)
  with o st show ?thesis by (auto simp: orphan_get)
next
  case (GetSync k)
  from o have "orphan (touch s k) p"
    by (rule orphan_cong [rotated 2]) (simp_all add: touch_frame req_ids_def)
  with GetSync o st show ?thesis by (auto simp: getSync_def split: option.splits)
next
  case (Has k)
  with o st show ?thesis by auto
next
  case (Invalidate k)
  from o have "orphan (invalidate s k) p"
    by (rule orphan_cong [rotated 2]) (auto simp: invalidate_fields req_ids_def)
  with Invalidate st show ?thesis by auto
next
  case Clear
  from o have "orphan (clear s) p"
    by (rule orphan_cong [rotated 2]) (simp_all add: clear_def req_ids_def)
  with Clear st show ?thesis by auto
next
  case (DecodeDone p' r)
  with st have d: "decode_done s p' r = Some s'" by simp
  from decode_done_fields [OF d] have "promises s' = promises s" "queue s' = queue s"
    "map item (loads s') = map item (loads s)" by simp_all
  moreover from this(3) have "map (\<lambda>l. promise (item l)) (loads s') = map (\<lambda>l. promise (item l)) (loads s)"
    by (metis (no_types, lifting) map_map comp_def map_eq_conv)
  ultimately have "promises s' = promises s" "req_ids s' = req_ids s" by (simp_all add: req_ids_def)
  with o show ?thesis by (simp add: orphan_def)
next
  case (Deliver p')
  have "orphan (deliver s p') p"
  proof (cases "find (\<lambda>l. promise (item l) = p' \<and> phase l \<noteq> Decoding \<and> phase l \<noteq> Delivered) (loads s)")
    case None
    with o show ?thesis by (simp add: deliver_idle)
  next
    case (Some l)
    from find_SomeD [OF Some] have "p' \<in> set (req_ids s)" by (auto simp: req_ids_def)
    with o have ne: "p \<noteq> p'" by (auto simp: orphan_def)
    have "req_ids (deliver s p') = req_ids s"
      by (simp add: deliver_found [OF Some] req_ids_set_phase) (simp add: req_ids_def)
    moreover have "promises (deliver s p') = settle (promises s) p' (outcome l)"
      by (simp add: deliver_found [OF Some] set_phase_fields)
    ultimately show ?thesis using o ne by (simp add: orphan_def settle_length settle_other)
  qed
  with Deliver st show ?thesis by auto
next
  case (Finally p')
  have "orphan (load_finally s p') p"
  proof (cases "find (\<lambda>l. promise (item l) = p' \<and> phase l = Delivered) (loads s)")
    case None
    with o show ?thesis by (simp add: load_finally_idle)
  next
    case (Some l)
    from o have "orphan (s\<lparr>loads := filter (\<lambda>l. promise (item l) \<noteq> p') (loads s),
                            activeLoads := activeLoads s - 1\<rparr>) p"
      by (rule orphan_cong [rotated 2]) (auto simp: req_ids_def)
    then show ?thesis by (simp add: load_finally_found [OF Some] orphan_processQueue)
  qed
  with Finally st show ?thesis by auto
qed

lemma orphan_run: "orphan s p \<Longrightarrow> run s es = Some s' \<Longrightarrow> orphan s' p"
proof (induction es arbitrary: s)
  case Nil
  then show ?case by simp
next
  case (Cons e es)
  then show ?case by (auto split: option.splits dest: orphan_step)
qed

lemma orphan_after_invalidate:
  assumes w: "wf s" and q: "q \<in> set (queue s)"
  shows "orphan (invalidate s (volumeUuid q)) (promise q)"
proof -
  let ?k = "volumeUuid q" let ?t = "invalidate s ?k"
  from w have dist: "distinct (req_ids s)" by (simp add: wf_def wf0_def)
  from w q have p: "promise q < length (promises s)" "promises s ! promise q = Pending"
    by (simp_all add: wf_def wf0_def req_ids_def)
  have "promise q \<notin> set (req_ids ?t)"
  proof
    assume "promise q \<in> set (req_ids ?t)"
    then consider q' where "q' \<in> set (queue s)" "volumeUuid q' \<noteq> ?k" "promise q' = promise q"
      | l where "l \<in> set (loads s)" "promise (item l) = promise q"
      by (auto simp: req_ids_def invalidate_fields)
    then show False
    proof cases
      case 1
      from dist have "distinct (map promise (queue s))" by (simp add: req_ids_def)
      with 1(1,3) q have "q' = q" by (auto simp: distinct_map dest: inj_onD)
      with 1(2) show False by simp
    next
      case 2
      with queued_not_loading [OF dist q 2(1)] show False by simp
    qed
  qed
  with p show ?thesis by (simp add: orphan_def invalidate_fields)
qed

text \<open>
  Claim C10. In a state reached from the initial state, let a request for a key wait in the
  queue. After \<open>invalidate\<close> of that key the request is no longer queued and no queued or
  loading request holds its promise, so nothing is left that could call \<open>resolve\<close> or
  \<open>reject\<close>. The promise, which \<open>get\<close> returned to every caller of that request, is
  pending at the invalidation and is pending in every state that any further sequence of
  events reaches.
\<close>

theorem invalidate_queued_never_settles:
  assumes "run init es = Some s" and "q \<in> set (queue s)"
    and "run (invalidate s (volumeUuid q)) es' = Some s'"
  shows "q \<notin> set (queue (invalidate s (volumeUuid q)))
       \<and> promise q \<notin> set (req_ids (invalidate s (volumeUuid q)))
       \<and> future_state s (Follows (promise q)) = Pending
       \<and> future_state s' (Follows (promise q)) = Pending
       \<and> promise q \<notin> set (req_ids s')"
proof -
  from wf_run [OF wf_init assms(1)] have w: "wf s" .
  from orphan_after_invalidate [OF w assms(2)] have o: "orphan (invalidate s (volumeUuid q)) (promise q)" .
  from orphan_run [OF o assms(3)] have o': "orphan s' (promise q)" .
  from w assms(2) have "promise q < length (promises s)" "promises s ! promise q = Pending"
    by (simp_all add: wf_def wf0_def req_ids_def)
  with o o' show ?thesis by (simp add: orphan_def invalidate_fields)
qed

theorem invalidate_queued_never_settles_witness:
  "case run init ten_requests of
     None \<Rightarrow> False
   | Some s \<Rightarrow>
       request_k9 \<in> set (queue s)
     \<and> (case run (invalidate s ''k9'') (settle_ok 0 @ [Get ''k9'' 9] @ settle_ok 1 @ settle_ok 10) of
          None \<Rightarrow> False
        | Some s' \<Rightarrow>
            future_state s' (Follows 9) = Pending
          \<and> future_state s' (Follows 10) = Fulfilled \<lparr> bitmap = 10, width = 10, height = 10, sizeB = 400 \<rparr>)"
proof -
  let ?s = "the (run init ten_requests)"
  let ?es = "settle_ok 0 @ [Get ''k9'' 9] @ settle_ok 1 @ settle_ok 10"
  let ?s' = "the (run (invalidate ?s (volumeUuid request_k9)) ?es)"
  have h: "run init ten_requests = Some ?s"
    by (simp add: ten_requests_def eval_ops)
  have q: "request_k9 \<in> set (queue ?s)"
    by (simp add: ten_requests_def eval_ops request_k9_def)
  have h': "run (invalidate ?s (volumeUuid request_k9)) ?es = Some ?s'"
    by (simp add: ten_requests_def settle_ok_def eval_ops request_k9_def)
  from invalidate_queued_never_settles [OF h q h']
  show ?thesis
    by (simp add: ten_requests_def settle_ok_def eval_ops request_k9_def)
qed

section \<open>Failure of a decode\<close>

lemma requests_processQueue: "requests (processQueue s) = requests s"
proof -
  let ?m = "length (queue s) - free_slots s"
  have "item ` set (map start_load (rev (drop ?m (queue s)))) = set (drop ?m (queue s))"
    by (simp add: image_image start_load_def)
  then show ?thesis
    using set_take_drop [of ?m "queue s"]
    by (auto simp: requests_def processQueue_fields image_Un)
qed

text \<open>
  Claim C6. In a state reached from the initial state, let the load of a request be
  decoding, and let the decode fail. The resumption of \<open>load\<close> changes neither the store
  nor the byte total nor the closed bitmaps. The promise of the request is pending until
  then; a \<open>get\<close> for the key that finds this promise in the pending map is handed the same
  promise and changes nothing. Once the failure is delivered the promise is rejected, so
  every caller that follows it has the failure; the pending map has no promise for the key
  and the store is still unchanged. A later \<open>get\<close> for the key, when the key is not in the
  store, returns a new promise, different from the rejected one and pending, and a request
  for the key under that promise is queued or loading.
\<close>

theorem decode_failure:
  assumes "run init es = Some s" and "l \<in> set (loads s)" and "phase l = Decoding"
    and "s1 = set_phase s (promise (item l)) (Settled None)"
    and "s2 = deliver s1 (promise (item l))"
  shows "decode_done s (promise (item l)) DecodeError = Some s1
       \<and> cache s1 = cache s \<and> totalBytes s1 = totalBytes s \<and> closed s1 = closed s
       \<and> future_state s (Follows (promise (item l))) = Pending
       \<and> (map_get (cache s) (volumeUuid (item l)) = None
            \<and> map_get (pending s) (volumeUuid (item l)) = Some (promise (item l)) \<longrightarrow>
              get s (volumeUuid (item l)) f = (Follows (promise (item l)), s))
       \<and> future_state s2 (Follows (promise (item l))) = Rejected
       \<and> map_get (pending s2) (volumeUuid (item l)) = None
       \<and> cache s2 = cache s \<and> totalBytes s2 = totalBytes s \<and> closed s2 = closed s
       \<and> (map_get (cache s) (volumeUuid (item l)) = None \<longrightarrow>
            fst (get s2 (volumeUuid (item l)) f) = Follows (length (promises s))
          \<and> length (promises s) \<noteq> promise (item l)
          \<and> future_state (snd (get s2 (volumeUuid (item l)) f)) (Follows (length (promises s))) = Pending
          \<and> \<lparr> volumeUuid = volumeUuid (item l), file = f, promise = length (promises s) \<rparr>
               \<in> requests (snd (get s2 (volumeUuid (item l)) f)))"
proof -
  let ?p = "promise (item l)" let ?k = "volumeUuid (item l)"
  from wf_run [OF wf_init assms(1)] have w: "wf s" .
  from w assms(2,3) have p: "?p < length (promises s)" "promises s ! ?p = Pending"
    by (auto simp: wf_def wf0_def req_ids_def)
  have d: "decode_done s ?p DecodeError = Some s1"
    using decode_error_found [OF w assms(2,3)] assms(4) by simp
  from wf_decode_done [OF w d] have w1: "wf s1" .
  let ?l1 = "l\<lparr>phase := Settled None\<rparr>"
  have l1: "?l1 \<in> set (loads s1)" using assms(2) unfolding assms(4) set_phase_fields by force
  have s2: "s2 = set_phase (s1\<lparr>promises := settle (promises s1) ?p Rejected,
                                 pending := map_delete (pending s1) ?k\<rparr>) ?p Delivered"
    using deliver_settled [OF w1 l1, of None] assms(5) by (simp add: outcome_def)
  have f1: "cache s1 = cache s" "totalBytes s1 = totalBytes s" "closed s1 = closed s"
    "promises s1 = promises s" "pending s1 = pending s"
    unfolding assms(4) by (simp_all add: set_phase_fields)
  have f2: "cache s2 = cache s" "totalBytes s2 = totalBytes s" "closed s2 = closed s"
    "promises s2 = settle (promises s) ?p Rejected" "pending s2 = map_delete (pending s) ?k"
    unfolding s2 by (simp_all add: set_phase_fields f1)
  have rej: "future_state s2 (Follows ?p) = Rejected"
    using p by (simp add: f2 settle_length settle_pending)
  have pend: "map_get (pending s2) ?k = None" by (simp add: f2 map_get_delete_same)
  have fresh: "map_get (cache s) ?k = None \<longrightarrow>
            fst (get s2 ?k f) = Follows (length (promises s))
          \<and> length (promises s) \<noteq> ?p
          \<and> future_state (snd (get s2 ?k f)) (Follows (length (promises s))) = Pending
          \<and> \<lparr> volumeUuid = ?k, file = f, promise = length (promises s) \<rparr> \<in> requests (snd (get s2 ?k f))"
  proof
    assume "map_get (cache s) ?k = None"
    then have c2: "map_get (cache s2) ?k = None" by (simp add: f2)
    have len: "length (promises s2) = length (promises s)" by (simp add: f2 settle_length)
    have g: "get s2 ?k f = (Follows (length (promises s)), processQueue (enqueue s2 ?k f))"
      using get_miss [OF c2 pend] len by simp
    have "future_state (processQueue (enqueue s2 ?k f)) (Follows (length (promises s))) = Pending"
      by (simp add: processQueue_fields) (simp add: enqueue_def len [symmetric])
    moreover have "\<lparr> volumeUuid = ?k, file = f, promise = length (promises s) \<rparr>
                    \<in> requests (processQueue (enqueue s2 ?k f))"
      by (simp add: requests_processQueue) (simp add: requests_def enqueue_def len)
    ultimately show "fst (get s2 ?k f) = Follows (length (promises s))
          \<and> length (promises s) \<noteq> ?p
          \<and> future_state (snd (get s2 ?k f)) (Follows (length (promises s))) = Pending
          \<and> \<lparr> volumeUuid = ?k, file = f, promise = length (promises s) \<rparr> \<in> requests (snd (get s2 ?k f))"
      using p(1) by (simp add: g)
  qed
  have joined: "map_get (cache s) ?k = None \<and> map_get (pending s) ?k = Some ?p \<longrightarrow>
              get s ?k f = (Follows ?p, s)"
    by (simp add: get_joined)
  from d f1 f2 rej pend fresh p joined show ?thesis by simp
qed

theorem decode_failure_witness:
  "case run init [Get ''a'' 0] of
     None \<Rightarrow> False
   | Some s \<Rightarrow>
       loads s = [start_load \<lparr> volumeUuid = ''a'', file = 0, promise = 0 \<rparr>]
     \<and> (case decode_done s 0 DecodeError of
          None \<Rightarrow> False
        | Some s1 \<Rightarrow>
            cache s1 = []
          \<and> future_state s1 (Follows 0) = Pending
          \<and> future_state (deliver s1 0) (Follows 0) = Rejected
          \<and> map_get (pending (deliver s1 0)) ''a'' = None
          \<and> fst (get (deliver s1 0) ''a'' 1) = Follows 1)"
proof -
  let ?s = "the (run init [Get ''a'' 0])"
  let ?l = "start_load \<lparr> volumeUuid = ''a'', file = 0, promise = 0 \<rparr>"
  have h: "run init [Get ''a'' 0] = Some ?s" by (simp add: eval_ops)
  have l: "?l \<in> set (loads ?s)" by (simp add: eval_ops start_load_def)
  have ph: "phase ?l = Decoding" by (simp add: start_load_def)
  from decode_failure [OF h l ph refl refl, of 1]
  show ?thesis
    by (simp add: eval_ops start_load_def)
qed

section \<open>Coalescing\<close>

lemma map_get_set: "map_get (map_set m k v) k' = (if k' = k then Some v else map_get m k')"
  by (induction m) (auto simp: map_get_def)

lemma coalesced_cong:
  "pending t = pending s \<Longrightarrow> queue t = queue s \<Longrightarrow> loads t = loads s \<Longrightarrow> coalesced t k = coalesced s k"
  by (simp add: coalesced_def)

lemma coalesced_processQueue: "coalesced s k \<Longrightarrow> coalesced (processQueue s) k"
  unfolding coalesced_def processQueue_fields
  by (auto simp: start_load_def dest: in_set_takeD in_set_dropD)

lemma coalesced_enqueue:
  assumes c: "coalesced s k" and miss: "map_get (pending s) k' = None"
  shows "coalesced (enqueue s k' f) k"
proof (cases "k' = k")
  case True
  with c miss have "\<forall>q \<in> set (queue s). volumeUuid q \<noteq> k"
    "\<forall>l \<in> set (loads s). \<not> (volumeUuid (item l) = k \<and> phase l \<noteq> Delivered)"
    by (auto simp: coalesced_def)
  with True show ?thesis
    by (auto simp: coalesced_def enqueue_def map_get_set)
next
  case False
  with c show ?thesis
    by (auto simp: coalesced_def enqueue_def map_get_set)
qed

lemma coalesced_get: "coalesced s k \<Longrightarrow> coalesced (snd (get s k' f)) k"
proof (cases "map_get (cache s) k'")
  case (Some e)
  assume "coalesced s k"
  moreover have "coalesced (touch s k') k = coalesced s k"
    by (rule coalesced_cong) (simp_all add: touch_frame)
  ultimately show ?thesis using Some by (simp add: get_hit)
next
  case None
  assume c: "coalesced s k"
  show ?thesis
  proof (cases "map_get (pending s) k'")
    case (Some p)
    with None c show ?thesis by (simp add: get_joined)
  next
    case N2: None
    with None c show ?thesis
      by (simp add: get_miss coalesced_processQueue coalesced_enqueue)
  qed
qed

lemma coalesced_invalidate: "k' \<noteq> k \<Longrightarrow> coalesced s k \<Longrightarrow> coalesced (invalidate s k') k"
  by (auto simp: coalesced_def invalidate_fields map_get_delete_other)

lemma loads_set_phaseD:
  "l' \<in> set (loads (set_phase s p ph)) \<Longrightarrow>
   \<exists>l \<in> set (loads s). item l' = item l \<and> (if promise (item l) = p then phase l' = ph else phase l' = phase l)"
  by (auto simp: set_phase_fields)

lemma coalesced_set_phase:
  assumes c: "coalesced s k"
    and ok: "\<forall>l \<in> set (loads s). promise (item l) = p \<longrightarrow> phase l \<noteq> Delivered"
  shows "coalesced (set_phase s p ph) k"
proof -
  have "\<forall>l' \<in> set (loads (set_phase s p ph)). volumeUuid (item l') = k \<and> phase l' \<noteq> Delivered \<longrightarrow>
          map_get (pending s) k = Some (promise (item l'))"
  proof (intro ballI impI)
    fix l' assume m: "l' \<in> set (loads (set_phase s p ph))"
      and h: "volumeUuid (item l') = k \<and> phase l' \<noteq> Delivered"
    from loads_set_phaseD [OF m] obtain l where l: "l \<in> set (loads s)" "item l' = item l"
      "if promise (item l) = p then phase l' = ph else phase l' = phase l" by blast
    have "phase l \<noteq> Delivered"
    proof (cases "promise (item l) = p")
      case True
      with ok l(1) show ?thesis by blast
    next
      case False
      with l(3) h show ?thesis by simp
    qed
    with c l h show "map_get (pending s) k = Some (promise (item l'))"
      by (simp add: coalesced_def)
  qed
  with c show ?thesis by (simp add: coalesced_def set_phase_fields(2,8))
qed

lemma decoding_unique:
  assumes w: "wf s" and l: "l \<in> set (loads s)" and ph: "phase l \<noteq> Delivered"
  shows "\<forall>l' \<in> set (loads s). promise (item l') = promise (item l) \<longrightarrow> phase l' \<noteq> Delivered"
proof (intro ballI impI)
  fix l' assume "l' \<in> set (loads s)" "promise (item l') = promise (item l)"
  from w have "distinct (req_ids s)" by (simp add: wf_def wf0_def)
  from same_id_same_load [OF this \<open>l' \<in> set (loads s)\<close> l \<open>promise (item l') = promise (item l)\<close>] ph
  show "phase l' \<noteq> Delivered" by simp
qed

lemma coalesced_decode_done:
  assumes w: "wf s" and c: "coalesced s k" and d: "decode_done s p r = Some s'"
  shows "coalesced s' k"
proof (cases "find (\<lambda>l. promise (item l) = p \<and> phase l = Decoding) (loads s)")
  case None
  with d c show ?thesis by (simp add: decode_done_def)
next
  case (Some l)
  from find_SomeD [OF Some] have l: "l \<in> set (loads s)" "promise (item l) = p" "phase l = Decoding"
    by simp_all
  from decoding_unique [OF w l(1)] l(2,3)
  have ok: "\<forall>l \<in> set (loads s). promise (item l) = p \<longrightarrow> phase l \<noteq> Delivered" by simp
  show ?thesis
  proof (cases r)
    case DecodeError
    with d Some have "s' = set_phase s p (Settled None)" by (simp add: decode_done_def)
    with c ok show ?thesis by (simp add: coalesced_set_phase)
  next
    case (Bitmap wd ht)
    with d Some obtain s1 e where ld: "load s (volumeUuid (item l)) p wd ht = Some (s1, e)"
      and s': "s' = set_phase s1 p (Settled (Some e))"
      by (auto simp: decode_done_def split: option.splits)
    from load_frame [OF ld] have fr: "pending s1 = pending s" "queue s1 = queue s" "loads s1 = loads s"
      by simp_all
    then have "coalesced s1 k = coalesced s k" by (rule coalesced_cong)
    with c ok fr show ?thesis unfolding s' by (simp add: coalesced_set_phase)
  qed
qed

lemma coalesced_deliver:
  assumes w: "wf s" and c: "coalesced s k"
  shows "coalesced (deliver s p) k"
proof (cases "find (\<lambda>l. promise (item l) = p \<and> phase l \<noteq> Decoding \<and> phase l \<noteq> Delivered) (loads s)")
  case None
  with c show ?thesis by (simp add: deliver_idle)
next
  case (Some l)
  from find_SomeD [OF Some] have l: "l \<in> set (loads s)" "promise (item l) = p" "phase l \<noteq> Delivered"
    by simp_all
  from w have dist: "distinct (req_ids s)" by (simp add: wf_def wf0_def)
  let ?k' = "volumeUuid (item l)"
  let ?s1 = "s\<lparr>promises := settle (promises s) p (outcome l), pending := map_delete (pending s) ?k'\<rparr>"
  let ?t = "set_phase ?s1 p Delivered"
  have q: "\<forall>q \<in> set (queue ?t). volumeUuid q = k \<longrightarrow> map_get (pending ?t) k = Some (promise q)"
  proof (intro ballI impI)
    fix q assume "q \<in> set (queue ?t)" and qk: "volumeUuid q = k"
    then have qs: "q \<in> set (queue s)" by (simp add: set_phase_fields)
    with c qk have pq: "map_get (pending s) k = Some (promise q)" by (simp add: coalesced_def)
    have "?k' \<noteq> k"
    proof
      assume "?k' = k"
      with c l have "map_get (pending s) k = Some p" by (auto simp: coalesced_def)
      with pq have "promise q = p" by simp
      with queued_not_loading [OF dist qs l(1)] l(2) show False by simp
    qed
    with pq show "map_get (pending ?t) k = Some (promise q)"
      by (simp add: set_phase_fields map_get_delete_other)
  qed
  have ld: "\<forall>l' \<in> set (loads ?t). volumeUuid (item l') = k \<and> phase l' \<noteq> Delivered \<longrightarrow>
          map_get (pending ?t) k = Some (promise (item l'))"
  proof (intro ballI impI)
    fix l' assume m: "l' \<in> set (loads ?t)" and h: "volumeUuid (item l') = k \<and> phase l' \<noteq> Delivered"
    from loads_set_phaseD [OF m] obtain l0 where l0: "l0 \<in> set (loads s)" "item l' = item l0"
      "if promise (item l0) = p then phase l' = Delivered else phase l' = phase l0" by auto
    from l0(3) h have np: "promise (item l0) \<noteq> p" and ph0: "phase l0 \<noteq> Delivered"
      by (auto split: if_splits)
    with c l0 h have pq: "map_get (pending s) k = Some (promise (item l0))" by (simp add: coalesced_def)
    have "?k' \<noteq> k"
    proof
      assume "?k' = k"
      with c l have "map_get (pending s) k = Some p" by (auto simp: coalesced_def)
      with pq np show False by simp
    qed
    with pq l0(2) show "map_get (pending ?t) k = Some (promise (item l'))"
      by (simp add: set_phase_fields map_get_delete_other)
  qed
  from q ld have "coalesced ?t k" unfolding coalesced_def by blast
  then show ?thesis by (simp add: deliver_found [OF Some])
qed

lemma coalesced_load_finally: "coalesced s k \<Longrightarrow> coalesced (load_finally s p) k"
proof (cases "find (\<lambda>l. promise (item l) = p \<and> phase l = Delivered) (loads s)")
  case None
  assume "coalesced s k"
  with None show ?thesis by (simp add: load_finally_idle)
next
  case (Some l)
  assume "coalesced s k"
  then have "coalesced (s\<lparr>loads := filter (\<lambda>l. promise (item l) \<noteq> p) (loads s),
                          activeLoads := activeLoads s - 1\<rparr>) k"
    by (simp add: coalesced_def)
  then show ?thesis by (simp add: load_finally_found [OF Some] coalesced_processQueue)
qed

lemma coalesced_invalidate_idle: "idle s k \<Longrightarrow> coalesced (invalidate s k) k"
  by (auto simp: coalesced_def invalidate_fields idle_def list_all_iff)

lemma coalesced_step:
  assumes w: "wf s" and c: "coalesced s k" and st: "step s e = Some s'"
    and ni: "e = Invalidate k \<longrightarrow> idle s k"
  shows "coalesced s' k"
proof (cases e)
  case (Get k' f)
  with c st show ?thesis by (auto simp: coalesced_get)
next
  case (GetSync k')
  have "coalesced (touch s k') k = coalesced s k"
    by (rule coalesced_cong) (simp_all add: touch_frame)
  with GetSync c st show ?thesis by (auto simp: getSync_def split: option.splits)
next
  case (Has k')
  with c st show ?thesis by auto
next
  case (Invalidate k')
  show ?thesis
  proof (cases "k' = k")
    case True
    with Invalidate ni have "idle s k" by simp
    with Invalidate True st show ?thesis by (auto simp: coalesced_invalidate_idle)
  next
    case False
    with Invalidate c st show ?thesis by (auto simp: coalesced_invalidate)
  qed
next
  case Clear
  have "coalesced (clear s) k = coalesced s k"
    by (rule coalesced_cong) (simp_all add: clear_def)
  with Clear c st show ?thesis by auto
next
  case (DecodeDone p r)
  with st have "decode_done s p r = Some s'" by simp
  from coalesced_decode_done [OF w c this] show ?thesis .
next
  case (Deliver p)
  with st coalesced_deliver [OF w c] show ?thesis by auto
next
  case (Finally p)
  with st c show ?thesis by (auto simp: coalesced_load_finally)
qed




























section \<open>Insertion and eviction\<close>

lemma sum_sizes_simps [simp]:
  "sum_sizes [] = 0" "sum_sizes (kv # m) = int (sizeB (snd kv)) + sum_sizes m"
  "sum_sizes (m @ m') = sum_sizes m + sum_sizes m'"
  by (simp_all add: sum_sizes_def)

lemma sum_sizes_nonneg: "0 \<le> sum_sizes m"
  by (induction m) auto

lemma map_delete_head:
  "k \<notin> fst ` set m \<Longrightarrow> map_delete ((k, e) # m) k = m"
  by (auto simp: map_delete_def filter_id_conv)

lemma evictLRU_head:
  assumes "cache s = (k, e) # m" and "k \<noteq> []" and "k \<notin> fst ` set m"
  shows "evictLRU s = s\<lparr>closed := closed s @ [bitmap e],
                         totalBytes := totalBytes s - int (sizeB e),
                         cache := m\<rparr>"
  using assms by (simp add: evictLRU_def map_get_def map_delete_head)

lemma evicted_0: "evicted s 0 = s"
  by (simp add: evicted_def)

lemma evicted_Suc:
  assumes "cache s = (k, e) # m"
  shows "evicted s (Suc n) =
           evicted (s\<lparr>closed := closed s @ [bitmap e],
                      totalBytes := totalBytes s - int (sizeB e),
                      cache := m\<rparr>) n"
  using assms by (simp add: evicted_def)

lemma evict_loop_total:
  "distinct (map fst (cache s)) \<Longrightarrow> [] \<notin> fst ` set (cache s) \<Longrightarrow>
   evict_loop s sz = Some (evicted s (evict_count (cache s) (totalBytes s) (maxBytes s) sz))"
proof (induction "cache s" arbitrary: s)
  case Nil
  then have "cache s = []" by simp
  then show ?case by (subst evict_loop.simps) (simp add: evicted_0)
next
  case (Cons kv m)
  obtain k e where kv: "kv = (k, e)" by (cases kv)
  from Cons.hyps(2) kv have c: "cache s = (k, e) # m" by simp
  from Cons.prems c have k: "k \<noteq> []" "k \<notin> fst ` set m" and d: "distinct (map fst m)"
    and ne: "[] \<notin> fst ` set m" by auto
  let ?s1 = "s\<lparr>closed := closed s @ [bitmap e], totalBytes := totalBytes s - int (sizeB e), cache := m\<rparr>"
  show ?case
  proof (cases "maxBytes s < totalBytes s + int sz")
    case False
    then show ?thesis by (subst evict_loop.simps) (simp add: c evicted_0)
  next
    case True
    have "evict_loop s sz = evict_loop (evictLRU s) sz"
      using True c by (subst evict_loop.simps) simp
    also have "\<dots> = evict_loop ?s1 sz" by (simp add: evictLRU_head [OF c k])
    also have "\<dots> = Some (evicted ?s1 (evict_count (cache ?s1) (totalBytes ?s1) (maxBytes ?s1) sz))"
      using d ne by (intro Cons.hyps(1)) simp_all
    also have "\<dots> = Some (evicted s (evict_count (cache s) (totalBytes s) (maxBytes s) sz))"
      using True by (simp add: c evicted_Suc [OF c])
    finally show ?thesis .
  qed
qed

lemma evict_count_le: "evict_count m tot mx sz \<le> length m"
  by (induction m arbitrary: tot) auto

lemma evict_count_before:
  "i < evict_count m tot mx sz \<Longrightarrow> mx < tot - sum_sizes (take i m) + int sz"
proof (induction m arbitrary: tot i)
  case Nil
  then show ?case by simp
next
  case (Cons kv m)
  from Cons.prems have big: "mx < tot + int sz" by (auto split: if_splits)
  show ?case
  proof (cases i)
    case 0
    with big show ?thesis by simp
  next
    case (Suc j)
    with Cons.prems big have "j < evict_count m (tot - int (sizeB (snd kv))) mx sz" by simp
    from Cons.IH [OF this] Suc show ?thesis by simp
  qed
qed

lemma evict_count_after:
  "evict_count m tot mx sz < length m \<Longrightarrow>
   tot - sum_sizes (take (evict_count m tot mx sz) m) + int sz \<le> mx"
proof (induction m arbitrary: tot)
  case Nil
  then show ?case by simp
next
  case (Cons kv m)
  show ?case
  proof (cases "mx < tot + int sz")
    case False
    then show ?thesis by simp
  next
    case True
    with Cons.prems have "evict_count m (tot - int (sizeB (snd kv))) mx sz < length m" by simp
    from Cons.IH [OF this] True show ?thesis by simp
  qed
qed

lemma evict_count_oversized:
  "mx < int sz \<Longrightarrow> tot = sum_sizes m \<Longrightarrow> evict_count m tot mx sz = length m"
proof (induction m arbitrary: tot)
  case Nil
  then show ?case by simp
next
  case (Cons kv m)
  from sum_sizes_nonneg [of "kv # m"] Cons.prems have "mx < tot + int sz" by simp
  with Cons show ?case by simp
qed

lemma load_total:
  assumes "distinct (map fst (cache s))" and "[] \<notin> fst ` set (cache s)"
  shows "load s k b w h =
           (let s1 = evicted s (evict_count (cache s) (totalBytes s) (maxBytes s) (w * h * 4));
                entry = \<lparr> bitmap = b, width = w, height = h, sizeB = w * h * 4 \<rparr>
            in Some (s1\<lparr>cache := map_set (cache s1) k entry,
                        totalBytes := totalBytes s1 + int (w * h * 4)\<rparr>, entry))"
  by (simp add: load_def evict_loop_total [OF assms] Let_def)

lemma map_get_drop_None: "map_get m k = None \<Longrightarrow> map_get (drop n m) k = None"
  by (auto simp: map_get_None_iff dest: in_set_dropD)

text \<open>
  Insertion under a key that is not in the store, into a store with one entry per key and
  without the empty key. \<open>load\<close> returns. It evicts the \<open>n\<close> least recently used entries:
  their bitmaps are closed in that order, their sizes leave the byte total and they leave the
  store, while the other entries keep their order. Before each of these evictions the total
  plus the new size was above the budget; if an entry is left, the total after the last
  eviction plus the new size is within the budget. An entry larger than the budget empties a
  store whose total is the sum of its sizes. The new entry is then the last of the store and
  its size is added to the total. No other field changes.
\<close>

theorem load_evicts_lru:
  assumes "distinct (map fst (cache s))" and "[] \<notin> fst ` set (cache s)"
    and "map_get (cache s) k = None"
    and "sz = w * h * 4"
    and "n = evict_count (cache s) (totalBytes s) (maxBytes s) sz"
    and "entry = \<lparr> bitmap = b, width = w, height = h, sizeB = sz \<rparr>"
  shows "load s k b w h =
           Some (s\<lparr>closed := closed s @ map (\<lambda>kv. bitmap (snd kv)) (take n (cache s)),
                    totalBytes := totalBytes s - sum_sizes (take n (cache s)) + int sz,
                    cache := drop n (cache s) @ [(k, entry)]\<rparr>, entry)
       \<and> n \<le> length (cache s)
       \<and> (\<forall>i<n. maxBytes s < totalBytes s - sum_sizes (take i (cache s)) + int sz)
       \<and> (n < length (cache s) \<longrightarrow>
            totalBytes s - sum_sizes (take n (cache s)) + int sz \<le> maxBytes s)
       \<and> (maxBytes s < int sz \<and> totalBytes s = sum_sizes (cache s) \<longrightarrow> n = length (cache s))"
proof -
  from assms(3) have "map_get (drop n (cache s)) k = None" by (rule map_get_drop_None)
  then have "map_set (drop n (cache s)) k entry = drop n (cache s) @ [(k, entry)]"
    by (simp add: map_set_fresh map_get_None_iff)
  then have 1: "load s k b w h =
           Some (s\<lparr>closed := closed s @ map (\<lambda>kv. bitmap (snd kv)) (take n (cache s)),
                    totalBytes := totalBytes s - sum_sizes (take n (cache s)) + int sz,
                    cache := drop n (cache s) @ [(k, entry)]\<rparr>, entry)"
    by (simp add: load_total [OF assms(1,2)] Let_def evicted_def assms(4,5,6))
  have 2: "n \<le> length (cache s)" unfolding assms(5) by (rule evict_count_le)
  have 3: "\<forall>i<n. maxBytes s < totalBytes s - sum_sizes (take i (cache s)) + int sz"
    unfolding assms(5) by (auto intro: evict_count_before)
  have 4: "n < length (cache s) \<longrightarrow>
            totalBytes s - sum_sizes (take n (cache s)) + int sz \<le> maxBytes s"
    unfolding assms(5) by (auto intro: evict_count_after)
  have 5: "maxBytes s < int sz \<and> totalBytes s = sum_sizes (cache s) \<longrightarrow> n = length (cache s)"
    unfolding assms(5) by (auto intro: evict_count_oversized)
  from 1 2 3 4 5 show ?thesis by blast
qed

theorem load_evicts_lru_witness:
  "load (two_cached\<lparr>maxBytes := 1700\<rparr>) ''c'' 2 20 10 =
     Some (two_cached\<lparr>maxBytes := 1700, closed := [0], totalBytes := 1600,
                       cache := [(''b'', entry_b), (''c'', \<lparr> bitmap = 2, width = 20, height = 10, sizeB = 800 \<rparr>)]\<rparr>,
           \<lparr> bitmap = 2, width = 20, height = 10, sizeB = 800 \<rparr>)
   \<and> load (two_cached\<lparr>maxBytes := 700\<rparr>) ''c'' 2 20 10 =
     Some (two_cached\<lparr>maxBytes := 700, closed := [0, 1], totalBytes := 800,
                       cache := [(''c'', \<lparr> bitmap = 2, width = 20, height = 10, sizeB = 800 \<rparr>)]\<rparr>,
           \<lparr> bitmap = 2, width = 20, height = 10, sizeB = 800 \<rparr>)"
proof -
  let ?s = "two_cached\<lparr>maxBytes := 1700\<rparr>" let ?t = "two_cached\<lparr>maxBytes := 700\<rparr>"
  have d: "distinct (map fst (cache ?s))" "distinct (map fst (cache ?t))"
    by (simp_all add: two_cached_def init_def)
  have e: "[] \<notin> fst ` set (cache ?s)" "[] \<notin> fst ` set (cache ?t)"
    by (simp_all add: two_cached_def init_def)
  have c: "map_get (cache ?s) ''c'' = None" "map_get (cache ?t) ''c'' = None"
    by (simp_all add: two_cached_def init_def map_get_def)
  from load_evicts_lru [OF d(1) e(1) c(1) refl refl refl, where w = 20 and h = 10 and b = 2]
       load_evicts_lru [OF d(2) e(2) c(2) refl refl refl, where w = 20 and h = 10 and b = 2]
  show ?thesis
    by (simp add: two_cached_def init_def entry_a_def entry_b_def)
qed

text \<open>
  With the empty string as least recently used key, \<open>evictLRU\<close> evicts nothing, so the loop
  of \<open>load\<close> never ends once the budget is exceeded.
\<close>

lemma evict_loop_stuck:
  assumes "evict_loop s sz = Some s'"
  shows "\<not> (maxBytes s < totalBytes s + int sz \<and> cache s \<noteq> [] \<and> fst (hd (cache s)) = [])"
  using assms
proof (rule evict_loop.raw_induct [rotated])
  fix f t n t'
  assume IH: "\<And>a b y. f a b = Some y \<Longrightarrow>
            \<not> (maxBytes a < totalBytes a + int b \<and> cache a \<noteq> [] \<and> fst (hd (cache a)) = [])"
    and eq: "(if maxBytes t < totalBytes t + int n \<and> 0 < length (cache t)
              then f (evictLRU t) n else Some t) = Some t'"
  show "\<not> (maxBytes t < totalBytes t + int n \<and> cache t \<noteq> [] \<and> fst (hd (cache t)) = [])"
  proof
    assume st: "maxBytes t < totalBytes t + int n \<and> cache t \<noteq> [] \<and> fst (hd (cache t)) = []"
    then have same: "evictLRU t = t" by (cases "cache t") (auto simp: evictLRU_def)
    from st eq have "f (evictLRU t) n = Some t'" by simp
    with same have "f t n = Some t'" by simp
    from IH [OF this] st show False by simp
  qed
qed

lemma load_empty_key_hangs:
  "cache s = ([], e) # m \<Longrightarrow> maxBytes s < totalBytes s + int (w * h * 4) \<Longrightarrow> load s k b w h = None"
proof (cases "evict_loop s (w * h * 4)")
  case None
  then show ?thesis by (simp add: load_def)
next
  case (Some s')
  assume "cache s = ([], e) # m" "maxBytes s < totalBytes s + int (w * h * 4)"
  with evict_loop_stuck [OF Some] show ?thesis by simp
qed

text \<open>
  Claim C3 says that the new entry is inserted at the most recently used position, after
  evictions that close the bitmap and subtract the size of every entry that leaves the
  store. On the events of \<open>stale_a\<close> the second load of \<open>a\<close> finds \<open>a\<close> in the store: its entry
  (bitmap 1) replaces the first one (bitmap 0) where it stands, before \<open>j\<close>; bitmap 0 is
  never closed; and the byte total counts the three sizes 400, 800 and 1200 while the store
  holds 2000 bytes.
\<close>

theorem load_overwrites_in_place:
  "map_option cache (run init stale_a) =
     Some [(''a'', \<lparr> bitmap = 1, width = 30, height = 10, sizeB = 1200 \<rparr>),
           (''j'', \<lparr> bitmap = 2, width = 20, height = 10, sizeB = 800 \<rparr>)]
   \<and> map_option closed (run init stale_a) = Some []
   \<and> map_option totalBytes (run init stale_a) = Some 2400
   \<and> map_option getStats (run init stale_a) = Some (2, 2400, 52428800)"
  by (simp add: stale_a_def eval_ops getStats_def)

text \<open>
  Claim C9 says that the result of a decode that was active when its key was invalidated is
  never inserted. After \<open>get\<close> and \<open>invalidate\<close> of \<open>a\<close> the load of \<open>a\<close> is still in progress
  and the store is empty; when the decode succeeds, the store holds the entry for \<open>a\<close> and
  the byte total is its size.
\<close>

theorem stale_result_inserted:
  "map_option cache (run init [Get ''a'' 0, Invalidate ''a'', DecodeDone 0 (Bitmap 10 10)]) =
     Some [(''a'', \<lparr> bitmap = 0, width = 10, height = 10, sizeB = 400 \<rparr>)]
   \<and> map_option totalBytes (run init [Get ''a'' 0, Invalidate ''a'', DecodeDone 0 (Bitmap 10 10)]) = Some 400
   \<and> map_option active_keys (run init [Get ''a'' 0, Invalidate ''a'']) = Some [''a'']
   \<and> map_option cache (run init [Get ''a'' 0, Invalidate ''a'']) = Some []"
  by (simp add: eval_ops active_keys_def)

section \<open>The byte budget\<close>

lemma keys_map_set: "fst ` set (map_set m k v) = insert k (fst ` set m)"
  by (induction m) auto

lemma keys_map_delete: "fst ` set (map_delete m k) = fst ` set m - {k}"
  by (auto simp: map_delete_def)

lemma distinct_map_delete: "distinct (map fst m) \<Longrightarrow> distinct (map fst (map_delete m k))"
  by (simp add: map_delete_def distinct_map_filter)

lemma sum_sizes_delete:
  "distinct (map fst m) \<Longrightarrow> map_get m k = Some e \<Longrightarrow>
   sum_sizes (map_delete m k) = sum_sizes m - int (sizeB e)"
proof (induction m)
  case Nil
  then show ?case by (simp add: map_get_def)
next
  case (Cons kv m)
  show ?case
  proof (cases "fst kv = k")
    case True
    with Cons.prems have "k \<notin> fst ` set m" "snd kv = e" by (auto simp: map_get_def)
    then have "\<forall>x \<in> set m. fst x \<noteq> k" by force
    then have "map_delete (kv # m) k = m" using True
      by (simp add: map_delete_def filter_id_conv)
    with \<open>snd kv = e\<close> show ?thesis by simp
  next
    case False
    with Cons.prems have "map_get m k = Some e" "distinct (map fst m)" by (auto simp: map_get_def)
    with Cons.IH have "sum_sizes (map_delete m k) = sum_sizes m - int (sizeB e)" by simp
    with False show ?thesis by (simp add: map_delete_def)
  qed
qed

lemma keys_touch: "fst ` set (cache (touch s k)) = fst ` set (cache s)"
proof (cases "map_get (cache s) k")
  case None
  then show ?thesis by (simp add: touch_def)
next
  case (Some e)
  then have "map_get (cache s) k \<noteq> None" by simp
  then have "k \<in> fst ` set (cache s)" by (simp add: map_get_None_iff)
  with Some show ?thesis by (auto simp: touch_def keys_map_set keys_map_delete)
qed

lemma store_ok_touch: "store_ok s \<Longrightarrow> store_ok (touch s k)"
proof (cases "map_get (cache s) k")
  case None
  assume "store_ok s"
  with None show ?thesis by (simp add: touch_def)
next
  case (Some e)
  assume ok: "store_ok s"
  then have d: "distinct (map fst (cache s))" by (simp add: store_ok_def)
  have c: "cache (touch s k) = map_delete (cache s) k @ [(k, e)]"
    using Some by (simp add: touch_def map_set_delete)
  have "distinct (map fst (map_delete (cache s) k @ [(k, e)]))"
    using distinct_map_delete [OF d, of k] by (simp add: keys_map_delete)
  moreover have "sum_sizes (map_delete (cache s) k @ [(k, e)]) = sum_sizes (cache s)"
    by (simp add: sum_sizes_delete [OF d Some])
  ultimately show ?thesis using ok by (simp add: store_ok_def c touch_frame)
qed

lemma store_ok_evictLRU:
  assumes "store_ok s"
  shows "store_ok (evictLRU s) \<and> fst ` set (cache (evictLRU s)) \<subseteq> fst ` set (cache s)"
proof (cases "cache s")
  case Nil
  with assms show ?thesis by (simp add: evictLRU_def)
next
  case (Cons kv m)
  show ?thesis
  proof (cases "fst kv = []")
    case True
    with Cons assms show ?thesis by (simp add: evictLRU_def)
  next
    case False
    from Cons have g: "map_get (cache s) (fst kv) = Some (snd kv)" by (simp add: map_get_def)
    from assms have d: "distinct (map fst (cache s))" by (simp add: store_ok_def)
    have ev: "evictLRU s = s\<lparr>closed := closed s @ [bitmap (snd kv)],
                         totalBytes := totalBytes s - int (sizeB (snd kv)),
                         cache := map_delete (cache s) (fst kv)\<rparr>"
      using Cons False g by (simp add: evictLRU_def Let_def)
    show ?thesis
      using assms by (simp add: ev store_ok_def distinct_map_delete sum_sizes_delete [OF d g] keys_map_delete)
  qed
qed

lemma evict_loop_store_ok:
  assumes "evict_loop s sz = Some s1" and "store_ok s"
  shows "store_ok s1 \<and> fst ` set (cache s1) \<subseteq> fst ` set (cache s)"
proof (rule evict_loop_invariant [OF assms(1)])
  show "store_ok s \<and> fst ` set (cache s) \<subseteq> fst ` set (cache s)" using assms(2) by simp
next
  fix t assume "store_ok t \<and> fst ` set (cache t) \<subseteq> fst ` set (cache s)"
  with store_ok_evictLRU [of t]
  show "store_ok (evictLRU t) \<and> fst ` set (cache (evictLRU t)) \<subseteq> fst ` set (cache s)" by blast
qed

lemma load_store_ok:
  assumes ld: "load s k b w h = Some (s', e)" and ok: "store_ok s" and fresh: "map_get (cache s) k = None"
    and le: "totalBytes s \<le> maxBytes s" and fit: "int (w * h * 4) \<le> maxBytes s"
  shows "store_ok s' \<and> totalBytes s' \<le> maxBytes s' \<and> fst ` set (cache s') \<subseteq> insert k (fst ` set (cache s))"
proof -
  let ?sz = "w * h * 4"
  define e0 where "e0 = \<lparr> bitmap = b, width = w, height = h, sizeB = ?sz \<rparr>"
  from ld have "evict_loop s ?sz \<noteq> None" by (auto simp: load_def Let_def split: option.splits)
  then obtain s1 where ev: "evict_loop s ?sz = Some s1" by auto
  with ld have s': "s' = s1\<lparr>cache := map_set (cache s1) k e, totalBytes := totalBytes s1 + int ?sz\<rparr>"
    and e: "e = e0"
    by (auto simp: load_def Let_def e0_def)
  have sz: "sizeB e = ?sz" by (simp add: e e0_def)
  from evict_loop_store_ok [OF ev ok] have ok1: "store_ok s1"
    and sub: "fst ` set (cache s1) \<subseteq> fst ` set (cache s)" by simp_all
  from fresh sub have k: "k \<notin> fst ` set (cache s1)" by (auto simp: map_get_None_iff)
  then have c: "map_set (cache s1) k e = cache s1 @ [(k, e)]" by (rule map_set_fresh)
  from evict_loop_frame [OF ev] have mx: "maxBytes s1 = maxBytes s" by simp
  from ok1 have d1: "distinct (map fst (cache s1))" and t1: "totalBytes s1 = sum_sizes (cache s1)"
    by (simp_all add: store_ok_def)
  have cs: "cache s' = cache s1 @ [(k, e)]" and ts: "totalBytes s' = totalBytes s1 + int ?sz"
    by (simp_all add: s' c)
  have "distinct (map fst (cache s'))" unfolding cs using d1 k by simp
  moreover have "totalBytes s' = sum_sizes (cache s')" unfolding cs ts using t1 sz by simp
  ultimately have ok': "store_ok s'" by (simp add: store_ok_def)
  have "totalBytes s1 + int ?sz \<le> maxBytes s"
  proof (cases "cache s1 = []")
    case True
    with t1 have "totalBytes s1 = 0" by simp
    with fit show ?thesis by simp
  next
    case False
    with evict_loop_exit [OF ev] mx show ?thesis by simp
  qed
  then have le': "totalBytes s' \<le> maxBytes s'" by (simp add: s' mx)
  have "fst ` set (cache s') \<subseteq> insert k (fst ` set (cache s))"
    unfolding cs using sub by auto
  with ok' le' show ?thesis by simp
qed

lemma fresh_keys_cong:
  assumes c: "fst ` set (cache t) \<subseteq> fst ` set (cache s)" and q: "set (queue t) \<subseteq> set (queue s)"
    and l: "\<forall>l \<in> set (loads t). phase l = Decoding \<longrightarrow>
       (\<exists>l0 \<in> set (loads s). item l0 = item l \<and> phase l0 = Decoding) \<or> item l \<in> set (queue s)"
    and fk: "fresh_keys s"
  shows "fresh_keys t"
proof -
  have up: "\<And>k. map_get (cache s) k = None \<Longrightarrow> map_get (cache t) k = None"
    using c by (auto simp: map_get_None_iff)
  have 1: "\<forall>q \<in> set (queue t). map_get (cache t) (volumeUuid q) = None"
  proof
    fix x assume "x \<in> set (queue t)"
    with q have "x \<in> set (queue s)" by blast
    with fk have "map_get (cache s) (volumeUuid x) = None" by (simp add: fresh_keys_def)
    then show "map_get (cache t) (volumeUuid x) = None" by (rule up)
  qed
  have 2: "\<forall>l \<in> set (loads t). phase l = Decoding \<longrightarrow> map_get (cache t) (volumeUuid (item l)) = None"
  proof (intro ballI impI)
    fix x assume x: "x \<in> set (loads t)" "phase x = Decoding"
    with l consider l0 where "l0 \<in> set (loads s)" "item l0 = item x" "phase l0 = Decoding"
      | "item x \<in> set (queue s)" by blast
    then have "map_get (cache s) (volumeUuid (item x)) = None"
    proof cases
      case 1
      from fk 1(1,3) have "map_get (cache s) (volumeUuid (item l0)) = None"
        by (simp add: fresh_keys_def)
      with 1(2) show ?thesis by simp
    next
      case 2
      with fk show ?thesis by (simp add: fresh_keys_def)
    qed
    then show "map_get (cache t) (volumeUuid (item x)) = None" by (rule up)
  qed
  from 1 2 show ?thesis by (simp add: fresh_keys_def)
qed

lemma fresh_keys_processQueue: "fresh_keys s \<Longrightarrow> fresh_keys (processQueue s)"
  by (rule fresh_keys_cong [of _ s])
     (auto simp: processQueue_fields start_load_def dest: in_set_takeD in_set_dropD)

lemma fresh_keys_touch: "fresh_keys s \<Longrightarrow> fresh_keys (touch s k)"
  by (rule fresh_keys_cong [of _ s]) (auto simp: keys_touch touch_frame)

lemma fresh_keys_get: "fresh_keys s \<Longrightarrow> fresh_keys (snd (get s k f))"
proof (cases "map_get (cache s) k")
  case (Some e)
  assume "fresh_keys s"
  with Some show ?thesis by (simp add: get_hit fresh_keys_touch)
next
  case None
  assume fk: "fresh_keys s"
  show ?thesis
  proof (cases "map_get (pending s) k")
    case (Some p)
    with None fk show ?thesis by (simp add: get_joined)
  next
    case N2: None
    from fk None have "fresh_keys (enqueue s k f)"
      by (auto simp: fresh_keys_def enqueue_def)
    with None N2 show ?thesis by (simp add: get_miss fresh_keys_processQueue)
  qed
qed

lemma fresh_keys_invalidate: "fresh_keys s \<Longrightarrow> fresh_keys (invalidate s k)"
  by (rule fresh_keys_cong [of _ s]) (auto simp: invalidate_fields keys_map_delete)

lemma fresh_keys_clear: "fresh_keys s \<Longrightarrow> fresh_keys (clear s)"
  by (rule fresh_keys_cong [of _ s]) (auto simp: clear_def)

lemma fresh_keys_deliver: "fresh_keys s \<Longrightarrow> fresh_keys (deliver s p)"
proof (cases "find (\<lambda>l. promise (item l) = p \<and> phase l \<noteq> Decoding \<and> phase l \<noteq> Delivered) (loads s)")
  case None
  assume "fresh_keys s"
  with None show ?thesis by (simp add: deliver_idle)
next
  case (Some l)
  assume fk: "fresh_keys s"
  show ?thesis
    unfolding deliver_found [OF Some]
    by (rule fresh_keys_cong [OF _ _ _ fk])
       (auto simp: set_phase_fields split: if_splits)
qed

lemma fresh_keys_load_finally: "fresh_keys s \<Longrightarrow> fresh_keys (load_finally s p)"
proof (cases "find (\<lambda>l. promise (item l) = p \<and> phase l = Delivered) (loads s)")
  case None
  assume "fresh_keys s"
  with None show ?thesis by (simp add: load_finally_idle)
next
  case (Some l)
  assume fk: "fresh_keys s"
  then have "fresh_keys (s\<lparr>loads := filter (\<lambda>l. promise (item l) \<noteq> p) (loads s),
                            activeLoads := activeLoads s - 1\<rparr>)"
    by (auto simp: fresh_keys_def)
  then show ?thesis by (simp add: load_finally_found [OF Some] fresh_keys_processQueue)
qed

lemma other_requests_other_key:
  assumes w: "wf s" and c: "coalesced s k" and l: "l \<in> set (loads s)" and lk: "volumeUuid (item l) = k"
    and ph: "phase l \<noteq> Delivered"
  shows "(\<forall>q \<in> set (queue s). volumeUuid q \<noteq> k)
       \<and> (\<forall>l' \<in> set (loads s). promise (item l') \<noteq> promise (item l) \<and> phase l' \<noteq> Delivered \<longrightarrow>
             volumeUuid (item l') \<noteq> k)"
proof -
  from w have dist: "distinct (req_ids s)" by (simp add: wf_def wf0_def)
  from c l lk ph have pk: "map_get (pending s) k = Some (promise (item l))" by (simp add: coalesced_def)
  have 1: "\<forall>q \<in> set (queue s). volumeUuid q \<noteq> k"
  proof (intro ballI notI)
    fix q assume q: "q \<in> set (queue s)" "volumeUuid q = k"
    with c have "map_get (pending s) k = Some (promise q)" by (simp add: coalesced_def)
    with pk have "promise q = promise (item l)" by simp
    with queued_not_loading [OF dist q(1) l] show False by simp
  qed
  have 2: "\<forall>l' \<in> set (loads s). promise (item l') \<noteq> promise (item l) \<and> phase l' \<noteq> Delivered \<longrightarrow>
             volumeUuid (item l') \<noteq> k"
  proof (intro ballI impI notI)
    fix l' assume l': "l' \<in> set (loads s)" "promise (item l') \<noteq> promise (item l) \<and> phase l' \<noteq> Delivered"
      "volumeUuid (item l') = k"
    with c have "map_get (pending s) k = Some (promise (item l'))" by (simp add: coalesced_def)
    with pk l'(2) show False by simp
  qed
  from 1 2 show ?thesis by simp
qed

lemma fresh_keys_decode_done:
  assumes w: "wf s" and c: "\<forall>k. coalesced s k" and fk: "fresh_keys s"
    and d: "decode_done s p r = Some s'"
  shows "fresh_keys s'"
proof (cases "find (\<lambda>l. promise (item l) = p \<and> phase l = Decoding) (loads s)")
  case None
  with d fk show ?thesis by (simp add: decode_done_def)
next
  case (Some l)
  from find_SomeD [OF Some] have l: "l \<in> set (loads s)" "promise (item l) = p" "phase l = Decoding"
    by simp_all
  let ?k = "volumeUuid (item l)"
  show ?thesis
  proof (cases r)
    case DecodeError
    with d Some have s': "s' = set_phase s p (Settled None)" by (simp add: decode_done_def)
    show ?thesis unfolding s'
      by (rule fresh_keys_cong [OF _ _ _ fk]) (auto simp: set_phase_fields split: if_splits)
  next
    case (Bitmap wd ht)
    with d Some obtain s1 e where ld: "load s ?k p wd ht = Some (s1, e)"
      and s': "s' = set_phase s1 p (Settled (Some e))"
      by (auto simp: decode_done_def split: option.splits)
    from load_frame [OF ld] have fr: "queue s1 = queue s" "loads s1 = loads s" by simp_all
    from ld obtain s0 where ev: "evict_loop s (wd * ht * 4) = Some s0"
      and c1: "cache s1 = map_set (cache s0) ?k e"
      by (auto simp: load_def Let_def split: option.splits)
    have "fst ` set (cache s0) \<subseteq> fst ` set (cache s)"
      by (rule evict_loop_invariant [OF ev])
         (auto simp: evictLRU_def Let_def keys_map_delete split: list.splits option.splits)
    then have keys: "fst ` set (cache s1) \<subseteq> insert ?k (fst ` set (cache s))"
      by (auto simp: c1 keys_map_set)
    from c have ck: "coalesced s ?k" by simp
    from other_requests_other_key [OF w ck l(1) refl] l(3)
    have oq: "\<forall>q \<in> set (queue s). volumeUuid q \<noteq> ?k"
      and ol: "\<forall>l' \<in> set (loads s). promise (item l') \<noteq> p \<and> phase l' \<noteq> Delivered \<longrightarrow>
             volumeUuid (item l') \<noteq> ?k"
      using l(2) by simp_all
    have 1: "\<forall>q \<in> set (queue s'). map_get (cache s') (volumeUuid q) = None"
    proof
      fix q assume "q \<in> set (queue s')"
      then have q: "q \<in> set (queue s)" by (simp add: s' set_phase_fields fr)
      with fk have "volumeUuid q \<notin> fst ` set (cache s)" by (simp add: fresh_keys_def map_get_None_iff)
      moreover from oq q have "volumeUuid q \<noteq> ?k" by simp
      ultimately have "volumeUuid q \<notin> fst ` set (cache s1)" using keys by blast
      then show "map_get (cache s') (volumeUuid q) = None"
        by (simp add: s' set_phase_fields map_get_None_iff)
    qed
    have 2: "\<forall>l' \<in> set (loads s'). phase l' = Decoding \<longrightarrow> map_get (cache s') (volumeUuid (item l')) = None"
    proof (intro ballI impI)
      fix l' assume m: "l' \<in> set (loads s')" and dec: "phase l' = Decoding"
      from m have "l' \<in> set (loads (set_phase s1 p (Settled (Some e))))" by (simp add: s')
      from loads_set_phaseD [OF this] obtain l0 where l0: "l0 \<in> set (loads s1)" "item l' = item l0"
        "if promise (item l0) = p then phase l' = Settled (Some e) else phase l' = phase l0" by blast
      from l0(3) dec have np: "promise (item l0) \<noteq> p" and d0: "phase l0 = Decoding"
        by (auto split: if_splits)
      from l0(1) fr have in0: "l0 \<in> set (loads s)" by simp
      with fk d0 have "volumeUuid (item l0) \<notin> fst ` set (cache s)"
        by (simp add: fresh_keys_def map_get_None_iff)
      moreover from ol in0 np d0 have "volumeUuid (item l0) \<noteq> ?k" by simp
      ultimately have "volumeUuid (item l0) \<notin> fst ` set (cache s1)" using keys by blast
      with l0(2) show "map_get (cache s') (volumeUuid (item l')) = None"
        by (simp add: s' set_phase_fields map_get_None_iff)
    qed
    from 1 2 show ?thesis by (simp add: fresh_keys_def)
  qed
qed

lemma budget_decode_done:
  assumes fk: "fresh_keys s" and ok: "store_ok s" and le: "totalBytes s \<le> maxBytes s"
    and d: "decode_done s p r = Some s'"
    and fit: "case r of Bitmap w h \<Rightarrow> int (w * h * 4) \<le> maxBytes s | DecodeError \<Rightarrow> True"
  shows "store_ok s' \<and> totalBytes s' \<le> maxBytes s'"
proof (cases "find (\<lambda>l. promise (item l) = p \<and> phase l = Decoding) (loads s)")
  case None
  with d ok le show ?thesis by (simp add: decode_done_def)
next
  case (Some l)
  from find_SomeD [OF Some] have l: "l \<in> set (loads s)" "phase l = Decoding" by simp_all
  with fk have fresh: "map_get (cache s) (volumeUuid (item l)) = None" by (simp add: fresh_keys_def)
  show ?thesis
  proof (cases r)
    case DecodeError
    with d Some have "s' = set_phase s p (Settled None)" by (simp add: decode_done_def)
    with ok le show ?thesis by (simp add: store_ok_def set_phase_fields)
  next
    case (Bitmap wd ht)
    with d Some obtain s1 e where ld: "load s (volumeUuid (item l)) p wd ht = Some (s1, e)"
      and s': "s' = set_phase s1 p (Settled (Some e))"
      by (auto simp: decode_done_def split: option.splits)
    from fit Bitmap have "int (wd * ht * 4) \<le> maxBytes s" by simp
    from load_store_ok [OF ld ok fresh le this] show ?thesis
      by (simp add: s' store_ok_def set_phase_fields)
  qed
qed

lemma sum_sizes_delete_le:
  "distinct (map fst m) \<Longrightarrow> sum_sizes (map_delete m k) \<le> sum_sizes m"
  by (cases "map_get m k") (simp_all add: map_delete_absent sum_sizes_delete)

lemma budget_invalidate:
  assumes ok: "store_ok s" and le: "totalBytes s \<le> maxBytes s"
  shows "store_ok (invalidate s k) \<and> totalBytes (invalidate s k) \<le> maxBytes (invalidate s k)"
proof -
  from ok have d: "distinct (map fst (cache s))" and t: "totalBytes s = sum_sizes (cache s)"
    by (simp_all add: store_ok_def)
  show ?thesis
  proof (cases "map_get (cache s) k")
    case None
    with ok le show ?thesis by (simp add: store_ok_def invalidate_fields map_delete_absent)
  next
    case (Some e)
    with ok le show ?thesis
      by (simp add: store_ok_def invalidate_fields distinct_map_delete sum_sizes_delete [OF d Some])
  qed
qed

lemma budget_inv_step:
  assumes inv: "budget_inv s" and st: "step s e = Some s'"
    and calm: "case e of Invalidate k \<Rightarrow> idle s k | _ \<Rightarrow> True"
    and fit: "case e of DecodeDone p (Bitmap w h) \<Rightarrow> int (w * h * 4) \<le> maxBytes s | _ \<Rightarrow> True"
  shows "budget_inv s'"
proof -
  from inv have w: "wf s" and c: "\<forall>k. coalesced s k" and fk: "fresh_keys s" and ok: "store_ok s"
    and le: "totalBytes s \<le> maxBytes s" by (simp_all add: budget_inv_def)
  from wf_step [OF w st] have w': "wf s'" .
  have c': "\<forall>k. coalesced s' k"
  proof
    fix k
    from c have ck: "coalesced s k" by simp
    from calm have "e = Invalidate k \<longrightarrow> idle s k" by auto
    from coalesced_step [OF w ck st this] show "coalesced s' k" .
  qed
  have rest: "fresh_keys s' \<and> store_ok s' \<and> totalBytes s' \<le> maxBytes s'"
  proof (cases e)
    case (Get k f)
    have "store_ok (snd (get s k f)) \<and> totalBytes (snd (get s k f)) \<le> maxBytes (snd (get s k f))"
    proof (cases "map_get (cache s) k")
      case (Some en)
      with ok le show ?thesis by (simp add: get_hit store_ok_touch touch_frame)
    next
      case None
      show ?thesis
      proof (cases "map_get (pending s) k")
        case (Some q)
        with None ok le show ?thesis by (simp add: get_joined)
      next
        case N2: None
        with None ok le show ?thesis
          by (simp add: get_miss store_ok_def processQueue_fields) (simp add: enqueue_def)
      qed
    qed
    with Get st fk show ?thesis by (auto simp: fresh_keys_get)
  next
    case (GetSync k)
    with st ok le fk show ?thesis
      by (auto simp: getSync_def store_ok_touch touch_frame fresh_keys_touch split: option.splits)
  next
    case (Has k)
    with st ok le fk show ?thesis by auto
  next
    case (Invalidate k)
    with st budget_invalidate [OF ok le] fk show ?thesis by (auto simp: fresh_keys_invalidate)
  next
    case Clear
    from le ok have "0 \<le> maxBytes s" using sum_sizes_nonneg [of "cache s"] by (simp add: store_ok_def)
    with Clear st fk show ?thesis by (auto simp: fresh_keys_clear) (simp_all add: clear_def store_ok_def)
  next
    case (DecodeDone p r)
    with st have d: "decode_done s p r = Some s'" by simp
    from fit DecodeDone have "case r of Bitmap w h \<Rightarrow> int (w * h * 4) \<le> maxBytes s | DecodeError \<Rightarrow> True"
      by (cases r) simp_all
    from budget_decode_done [OF fk ok le d this] fresh_keys_decode_done [OF w c fk d]
    show ?thesis by simp
  next
    case (Deliver p)
    with st ok le fk show ?thesis by (auto simp: fresh_keys_deliver store_ok_def deliver_fields)
  next
    case (Finally p)
    with st ok le fk show ?thesis
      by (auto simp: fresh_keys_load_finally store_ok_def load_finally_fields)
  qed
  with w' c' show ?thesis by (simp add: budget_inv_def)
qed

lemma budget_inv_run:
  "budget_inv s \<Longrightarrow> run s es = Some s' \<Longrightarrow> calm s es \<Longrightarrow> sizes_fit (maxBytes s) es \<Longrightarrow>
   budget_inv s'"
proof (induction es arbitrary: s)
  case Nil
  then show ?case by simp
next
  case (Cons e es)
  from Cons.prems(2) obtain s1 where st: "step s e = Some s1" and r: "run s1 es = Some s'"
    by (auto split: option.splits)
  from Cons.prems(3) st have c0: "case e of Invalidate k \<Rightarrow> idle s k | _ \<Rightarrow> True" and c1: "calm s1 es"
    by simp_all
  from Cons.prems(4) have f0: "case e of DecodeDone p (Bitmap w h) \<Rightarrow> int (w * h * 4) \<le> maxBytes s | _ \<Rightarrow> True"
    and f1: "sizes_fit (maxBytes s) es" by (simp_all add: sizes_fit_def)
  from consts_step [OF st] f1 have f1': "sizes_fit (maxBytes s1) es" by simp
  from budget_inv_step [OF Cons.prems(1) st c0 f0] have "budget_inv s1" .
  from Cons.IH [OF this r c1 f1'] show ?case .
qed

lemma budget_inv_init: "budget_inv init"
proof -
  have "\<And>k. coalesced init k" by (simp add: init_def coalesced_def)
  moreover have "fresh_keys init" "store_ok init" "totalBytes init \<le> maxBytes init"
    by (simp_all add: init_def fresh_keys_def store_ok_def)
  ultimately show ?thesis by (simp add: budget_inv_def wf_init)
qed

text \<open>
  Claim C2, amended. Let a sequence of events run from the initial state, in which every
  decoded bitmap has at most \<open>maxBytes\<close> bytes and \<open>invalidate\<close> is called for a key only
  while no load for that key is in progress. In the state it reaches, and so after each of
  its events, the byte total is the sum of the sizes of the entries of the store, is at most
  \<open>maxBytes\<close>, and is the total that \<open>getStats\<close> reports.
\<close>

theorem budget_invariant:
  assumes "run init es = Some s" and "calm init es" and "sizes_fit (maxBytes init) es"
  shows "totalBytes s = sum_sizes (cache s)
       \<and> totalBytes s \<le> maxBytes s
       \<and> maxBytes s = 50 * 1024 * 1024
       \<and> getStats s = (length (cache s), sum_sizes (cache s), 50 * 1024 * 1024)"
proof -
  from budget_inv_run [OF budget_inv_init assms] have "budget_inv s" .
  moreover from consts_run [OF assms(1)] have "maxBytes s = 50 * 1024 * 1024" by (simp add: init_def)
  ultimately show ?thesis by (simp add: budget_inv_def store_ok_def getStats_def)
qed

text \<open>
  The claim as stated fails: a bitmap of 4096 by 4096 pixels has 64 MiB, more than the
  budget of 50 MiB; it is stored all the same, and the byte total exceeds \<open>maxBytes\<close>.
\<close>

theorem budget_invariant_counterexample:
  "\<not> (case run init [Get ''a'' 0, DecodeDone 0 (Bitmap 4096 4096)] of
        None \<Rightarrow> True
      | Some s \<Rightarrow> totalBytes s \<le> maxBytes s)"
  by (simp add: eval_ops)

theorem budget_invariant_witness:
  "case run init four_big of
     None \<Rightarrow> False
   | Some s \<Rightarrow>
       calm init four_big \<and> sizes_fit (maxBytes init) four_big
     \<and> map fst (cache s) = [''c'', ''d'', ''b'']
     \<and> closed s = [0]
     \<and> totalBytes s = 50331648
     \<and> totalBytes s = sum_sizes (cache s)
     \<and> totalBytes s \<le> maxBytes s"
proof -
  let ?s = "the (run init four_big)"
  have h: "run init four_big = Some ?s" by (simp add: four_big_def eval_ops)
  have c: "calm init four_big" by (simp add: four_big_def eval_ops idle_def)
  have f: "sizes_fit (maxBytes init) four_big" by (simp add: four_big_def sizes_fit_def init_def)
  from budget_invariant [OF h c f] c f
  show ?thesis
    by (simp add: four_big_def eval_ops idle_def sizes_fit_def getStats_def)
qed

section \<open>A decode that outlives an invalidation\<close>

lemma distinct_map_set: "distinct (map fst m) \<Longrightarrow> distinct (map fst (map_set m k v))"
proof (induction m)
  case Nil
  then show ?case by simp
next
  case (Cons kv m)
  then show ?case by (auto simp: keys_map_set)
qed

lemma distinct_keys_touch: "distinct (map fst (cache s)) \<Longrightarrow> distinct (map fst (cache (touch s k)))"
  by (auto simp: touch_def distinct_map_set distinct_map_delete split: option.split)

lemma distinct_keys_evictLRU: "distinct (map fst (cache s)) \<Longrightarrow> distinct (map fst (cache (evictLRU s)))"
  by (auto simp: evictLRU_def Let_def distinct_map_delete split: list.split option.split)

lemma distinct_keys_decode_done:
  assumes "distinct (map fst (cache s))" and d: "decode_done s p r = Some s'"
  shows "distinct (map fst (cache s'))"
proof (cases "find (\<lambda>l. promise (item l) = p \<and> phase l = Decoding) (loads s)")
  case None
  with d assms(1) show ?thesis by (simp add: decode_done_def)
next
  case (Some l)
  show ?thesis
  proof (cases r)
    case DecodeError
    with d Some have "s' = set_phase s p (Settled None)" by (simp add: decode_done_def)
    with assms(1) show ?thesis by (simp add: set_phase_fields)
  next
    case (Bitmap wd ht)
    with d Some obtain s1 e where ld: "load s (volumeUuid (item l)) p wd ht = Some (s1, e)"
      and s': "s' = set_phase s1 p (Settled (Some e))"
      by (auto simp: decode_done_def split: option.splits)
    from ld obtain s0 where ev: "evict_loop s (wd * ht * 4) = Some s0"
      and c1: "cache s1 = map_set (cache s0) (volumeUuid (item l)) e"
      by (auto simp: load_def Let_def split: option.splits)
    have "distinct (map fst (cache s0))"
      by (rule evict_loop_invariant [OF ev]) (simp_all add: assms(1) distinct_keys_evictLRU)
    then show ?thesis by (simp add: s' set_phase_fields c1 distinct_map_set)
  qed
qed

lemma distinct_keys_step:
  assumes "distinct (map fst (cache s))" and st: "step s e = Some s'"
  shows "distinct (map fst (cache s'))"
proof (cases e)
  case (Get k f)
  have "distinct (map fst (cache (snd (get s k f))))"
    using assms(1)
    by (auto simp: get_def Let_def processQueue_fields distinct_keys_touch split: option.split)
  with Get st show ?thesis by auto
next
  case (GetSync k)
  with st assms(1) show ?thesis by (auto simp: getSync_def distinct_keys_touch split: option.splits)
next
  case (Has k)
  with st assms(1) show ?thesis by auto
next
  case (Invalidate k)
  with st assms(1) show ?thesis by (auto simp: invalidate_fields distinct_map_delete)
next
  case Clear
  with st show ?thesis by (auto simp: clear_def)
next
  case (DecodeDone p r)
  with st distinct_keys_decode_done [OF assms(1)] show ?thesis by auto
next
  case (Deliver p)
  with st assms(1) show ?thesis by (auto simp: deliver_fields)
next
  case (Finally p)
  with st assms(1) show ?thesis by (auto simp: load_finally_fields)
qed

lemma distinct_keys_run: "distinct (map fst (cache s)) \<Longrightarrow> run s es = Some s' \<Longrightarrow> distinct (map fst (cache s'))"
proof (induction es arbitrary: s)
  case Nil
  then show ?case by simp
next
  case (Cons e es)
  then show ?case by (auto split: option.splits dest: distinct_keys_step)
qed

text \<open>
  In general: in a state reached from the initial state, with no empty key in the store, let
  a load be decoding when its key is invalidated. The load stays in progress and the key
  is not in the store. When the decode then yields a bitmap, \<open>load\<close> returns, the store
  holds the new entry under the key, and the byte total has grown by its size.
\<close>

theorem stale_result_stored:
  assumes "run init es = Some s" and "l \<in> set (loads s)" and "phase l = Decoding"
    and "[] \<notin> fst ` set (cache s)"
    and "k = volumeUuid (item l)" and "p = promise (item l)"
    and "s0 = invalidate s k"
    and "sz = w * h * 4"
    and "n = evict_count (cache s0) (totalBytes s0) (maxBytes s0) sz"
    and "entry = \<lparr> bitmap = p, width = w, height = h, sizeB = sz \<rparr>"
    and "s' = set_phase
                (s0\<lparr>closed := closed s0 @ map (\<lambda>kv. bitmap (snd kv)) (take n (cache s0)),
                    totalBytes := totalBytes s0 - sum_sizes (take n (cache s0)) + int sz,
                    cache := drop n (cache s0) @ [(k, entry)]\<rparr>)
                p (Settled (Some entry))"
  shows "loads s0 = loads s
       \<and> \<not> has s0 k
       \<and> decode_done s0 p (Bitmap w h) = Some s'
       \<and> has s' k
       \<and> map_get (cache s') k = Some entry
       \<and> totalBytes s' = totalBytes s0 - sum_sizes (take n (cache s0)) + int sz"
proof -
  from wf_run [OF wf_init assms(1)] have w: "wf s" .
  have "distinct (map fst (cache init))" by (simp add: init_def)
  from distinct_keys_run [OF this assms(1)] have d: "distinct (map fst (cache s))" .
  have l0: "loads s0 = loads s" by (simp add: assms(7) invalidate_fields)
  have c0: "cache s0 = map_delete (cache s) k" by (simp add: assms(7) invalidate_fields)
  have g0: "map_get (cache s0) k = None" by (simp add: c0 map_get_delete_same)
  then have nh: "\<not> has s0 k" by (simp add: has_def map_has_get)
  have d0: "distinct (map fst (cache s0))" by (simp add: c0 distinct_map_delete [OF d])
  have e0: "[] \<notin> fst ` set (cache s0)" using assms(4) by (auto simp: c0 keys_map_delete)
  let ?P = "\<lambda>l'. promise (item l') = p \<and> phase l' = Decoding"
  from assms(2,3,6) have "find ?P (loads s) \<noteq> None" by (auto simp: find_None_iff)
  then obtain l' where f: "find ?P (loads s) = Some l'" by auto
  from find_SomeD [OF f] have "l' \<in> set (loads s)" "promise (item l') = promise (item l)"
    by (simp_all add: assms(6))
  from w have "distinct (req_ids s)" by (simp add: wf_def wf0_def)
  from same_id_same_load [OF this \<open>l' \<in> set (loads s)\<close> assms(2) \<open>promise (item l') = promise (item l)\<close>]
  have "l' = l" .
  with f have f0: "find ?P (loads s0) = Some l" by (simp add: l0)
  from load_evicts_lru [OF d0 e0 g0 assms(8,9,10)]
  have ld: "load s0 k p w h =
           Some (s0\<lparr>closed := closed s0 @ map (\<lambda>kv. bitmap (snd kv)) (take n (cache s0)),
                    totalBytes := totalBytes s0 - sum_sizes (take n (cache s0)) + int sz,
                    cache := drop n (cache s0) @ [(k, entry)]\<rparr>, entry)"
    by (rule conjunct1)
  have dd: "decode_done s0 p (Bitmap w h) = Some s'"
    by (simp add: decode_done_def f0 assms(5) [symmetric] ld assms(11))
  have cs: "cache s' = drop n (cache s0) @ [(k, entry)]"
    and ts: "totalBytes s' = totalBytes s0 - sum_sizes (take n (cache s0)) + int sz"
    by (simp_all add: assms(11) set_phase_fields)
  from g0 have "map_get (drop n (cache s0)) k = None" by (rule map_get_drop_None)
  then have gs: "map_get (cache s') k = Some entry" by (simp add: cs map_get_append)
  then have hs: "has s' k" by (simp add: has_def map_has_get)
  from l0 nh dd hs gs ts show ?thesis by simp
qed

theorem stale_result_stored_witness:
  "case run init [Get ''a'' 0] of
     None \<Rightarrow> False
   | Some s \<Rightarrow>
       active_keys s = [''a'']
     \<and> active_keys (invalidate s ''a'') = [''a'']
     \<and> \<not> has (invalidate s ''a'') ''a''
     \<and> (case decode_done (invalidate s ''a'') 0 (Bitmap 10 10) of
          None \<Rightarrow> False
        | Some s' \<Rightarrow>
            has s' ''a''
          \<and> cache s' = [(''a'', \<lparr> bitmap = 0, width = 10, height = 10, sizeB = 400 \<rparr>)]
          \<and> totalBytes s' = 400)"
proof -
  let ?s = "the (run init [Get ''a'' 0])"
  let ?l = "start_load \<lparr> volumeUuid = ''a'', file = 0, promise = 0 \<rparr>"
  have h: "run init [Get ''a'' 0] = Some ?s" by (simp add: eval_ops)
  have l: "?l \<in> set (loads ?s)" by (simp add: eval_ops start_load_def)
  have ph: "phase ?l = Decoding" by (simp add: start_load_def)
  have e: "[] \<notin> fst ` set (cache ?s)" by (simp add: eval_ops)
  from stale_result_stored [OF h l ph e refl refl refl refl refl refl refl, where w = 10 and h = 10]
  show ?thesis
    by (simp add: eval_ops start_load_def active_keys_def has_def map_has_def)
qed

end
